theory Spec2Isabelle
  imports Complex_Main "HOL-Library.Word" "HOL-Library.Sublist"
begin

unbundle bit_operations_syntax

section \<open>Data model\<close>

text \<open>
  A \<open>QByteArray\<close> is a list of octets. \<open>QByteArray::isEmpty\<close> is comparison with the
  empty list, \<open>append\<close> is list append at the end, \<open>mid(pos, len)\<close> is
  \<open>take len (drop pos xs)\<close> for the in-range arguments the sources pass.
\<close>

type_synonym byte = "8 word"
type_synonym QByteArray = "byte list"

subsection \<open>protocol/SLIPCodec.h: the framing constants\<close>

definition FRAME_END :: byte where
  "FRAME_END = 0xC0"

definition FRAME_ESCAPE :: byte where
  "FRAME_ESCAPE = 0xDB"

definition ESCAPED_END :: byte where
  "ESCAPED_END = 0xDC"

definition ESCAPED_ESCAPE :: byte where
  "ESCAPED_ESCAPE = 0xDD"

subsection \<open>protocol/SLIPCodec.cpp: \<open>SLIPCodec::encode\<close>\<close>

text \<open>
  The body of the \<open>for\<close> loop of \<open>encode\<close>: the bytes appended to \<open>encoded\<close> for one
  input byte (the \<open>switch\<close> with its three cases).
\<close>

definition encode_step :: "byte \<Rightarrow> QByteArray" where
  "encode_step b =
     (if b = FRAME_END then [FRAME_ESCAPE, ESCAPED_END]
      else if b = FRAME_ESCAPE then [FRAME_ESCAPE, ESCAPED_ESCAPE]
      else [b])"

text \<open>The loop itself, with the output buffer \<open>encoded\<close> as accumulator.\<close>

fun encode_loop :: "QByteArray \<Rightarrow> QByteArray \<Rightarrow> QByteArray" where
  "encode_loop [] encoded = encoded"
| "encode_loop (b # bs) encoded = encode_loop bs (encoded @ encode_step b)"

definition encode :: "QByteArray \<Rightarrow> QByteArray" where
  "encode data = encode_loop data [FRAME_END] @ [FRAME_END]"

subsection \<open>protocol/SLIPCodec.cpp: \<open>SLIPCodec::decode\<close> (one-shot)\<close>

text \<open>
  The loop of \<open>decode\<close> over the remaining input, with the locals \<open>decoded\<close>,
  \<open>inEscape\<close> and \<open>started\<close>. The \<open>return decoded\<close> inside the loop ends the
  recursion; running off the end of the input returns \<open>decoded\<close> as well (the source
  returns \<open>QByteArray()\<close> when it is empty, which is the same value).
\<close>

fun decode_loop :: "QByteArray \<Rightarrow> QByteArray \<Rightarrow> bool \<Rightarrow> bool \<Rightarrow> QByteArray" where
  "decode_loop [] decoded inEscape started = (if decoded = [] then [] else decoded)"
| "decode_loop (b # bs) decoded inEscape started =
     (if b = FRAME_END then
        (if started \<and> decoded \<noteq> [] then decoded
         else decode_loop bs [] inEscape True)
      else if \<not> started then decode_loop bs decoded inEscape started
      else if inEscape then
        decode_loop bs
          (decoded @ [if b = ESCAPED_END then FRAME_END
                      else if b = ESCAPED_ESCAPE then FRAME_ESCAPE
                      else b])
          False started
      else if b = FRAME_ESCAPE then decode_loop bs decoded True started
      else decode_loop bs (decoded @ [b]) inEscape started)"

definition decode :: "QByteArray \<Rightarrow> QByteArray" where
  "decode slipPacket = decode_loop slipPacket [] False False"

subsection \<open>protocol/SLIPCodec.cpp: the streaming \<open>SLIPDecoder\<close>\<close>

record SLIPDecoder =
  m_buffer :: QByteArray
  m_inEscape :: bool
  m_packetStarted :: bool

definition reset :: "SLIPDecoder \<Rightarrow> SLIPDecoder" where
  "reset d = d\<lparr>m_buffer := [], m_inEscape := False, m_packetStarted := False\<rparr>"

text \<open>A default-constructed decoder; \<open>reset\<close> of any decoder gives the same fields.\<close>

definition SLIPDecoder_init :: SLIPDecoder where
  "SLIPDecoder_init = \<lparr>m_buffer = [], m_inEscape = False, m_packetStarted = False\<rparr>"

text \<open>
  \<open>processByte\<close> returns the completed packet, or the empty array when no packet was
  completed, together with the updated decoder.
\<close>

definition processByte :: "byte \<Rightarrow> SLIPDecoder \<Rightarrow> QByteArray \<times> SLIPDecoder" where
  "processByte b d =
     (if b = FRAME_END then
        (if m_packetStarted d \<and> m_buffer d \<noteq> [] then (m_buffer d, reset d)
         else ([], d\<lparr>m_packetStarted := True, m_buffer := []\<rparr>))
      else if b = FRAME_ESCAPE then
        (if \<not> m_packetStarted d then ([], d)
         else ([], d\<lparr>m_inEscape := True\<rparr>))
      else
        (if \<not> m_packetStarted d then ([], d)
         else if m_inEscape d then
           ([], d\<lparr>m_inEscape := False,
                  m_buffer := m_buffer d @
                    [if b = ESCAPED_END then FRAME_END
                     else if b = ESCAPED_ESCAPE then FRAME_ESCAPE
                     else b]\<rparr>)
         else ([], d\<lparr>m_buffer := m_buffer d @ [b]\<rparr>)))"

text \<open>
  \<open>process\<close>: the loop over the input with the vector \<open>packets\<close> as accumulator; only a
  non-empty return of \<open>processByte\<close> is pushed.
\<close>

fun process_loop ::
  "QByteArray \<Rightarrow> QByteArray list \<Rightarrow> SLIPDecoder \<Rightarrow> QByteArray list \<times> SLIPDecoder" where
  "process_loop [] packets d = (packets, d)"
| "process_loop (b # bs) packets d =
     (case processByte b d of
        (packet, d') \<Rightarrow>
          process_loop bs (if packet \<noteq> [] then packets @ [packet] else packets) d')"

definition process :: "QByteArray \<Rightarrow> SLIPDecoder \<Rightarrow> QByteArray list \<times> SLIPDecoder" where
  "process data d = process_loop data [] d"

subsection \<open>protocol/ESP32Protocol.h: opcodes and the response structure\<close>

datatype ESP32Command =
  Sync | FlashBegin | FlashData | FlashEnd | ChangeBaudRate | ReadReg | WriteReg | SpiAttach

text \<open>The enumerators' values (\<open>static_cast<uint8_t>(command)\<close>).\<close>

fun opcode :: "ESP32Command \<Rightarrow> byte" where
  "opcode Sync = 0x08"
| "opcode FlashBegin = 0x02"
| "opcode FlashData = 0x03"
| "opcode FlashEnd = 0x04"
| "opcode ChangeBaudRate = 0x0F"
| "opcode ReadReg = 0x0A"
| "opcode WriteReg = 0x09"
| "opcode SpiAttach = 0x0D"

text \<open>
  The fields \<open>size\<close>, \<open>value\<close> and \<open>data\<close> of the structure are named \<open>rsp_size\<close>,
  \<open>rsp_value\<close> and \<open>rsp_data\<close> here.
\<close>

record ESP32Response =
  direction :: byte
  command :: byte
  rsp_size :: "16 word"
  rsp_value :: "32 word"
  rsp_data :: QByteArray
  status :: byte
  error :: byte

definition isSuccess :: "ESP32Response \<Rightarrow> bool" where
  "isSuccess r \<longleftrightarrow> status r = 0 \<and> error r = 0"

definition CHECKSUM_SEED :: byte where
  "CHECKSUM_SEED = 0xEF"

definition FLASH_BLOCK_SIZE :: int where
  "FLASH_BLOCK_SIZE = 1024"

subsection \<open>protocol/ESP32Protocol.cpp: little-endian helpers and \<open>ESP32Response::parse\<close>\<close>

text \<open>
  \<open>QByteArray::mid(pos, len)\<close> for \<open>pos \<ge> 0\<close>: \<open>len\<close> bytes from \<open>pos\<close> on, cut at
  the end of the array; a negative \<open>len\<close> means "up to the end".
\<close>

definition mid :: "QByteArray \<Rightarrow> int \<Rightarrow> int \<Rightarrow> QByteArray" where
  "mid xs pos len =
     (if len < 0 then drop (nat pos) xs else take (nat len) (drop (nat pos) xs))"

definition appendLE16 :: "QByteArray \<Rightarrow> 16 word \<Rightarrow> QByteArray" where
  "appendLE16 d v = d @ [ucast (v AND 0xFF), ucast (drop_bit 8 v AND 0xFF)]"

definition appendLE32 :: "QByteArray \<Rightarrow> 32 word \<Rightarrow> QByteArray" where
  "appendLE32 d v =
     d @ [ucast (v AND 0xFF), ucast (drop_bit 8 v AND 0xFF),
          ucast (drop_bit 16 v AND 0xFF), ucast (drop_bit 24 v AND 0xFF)]"

text \<open>
  The readers index the array without a check; \<open>parse\<close> calls them only on packets of
  at least 8 bytes, with offsets 2 and 4.
\<close>

definition readLE16 :: "QByteArray \<Rightarrow> nat \<Rightarrow> 16 word" where
  "readLE16 d off = ucast (d ! off) OR push_bit 8 (ucast (d ! (off + 1)))"

definition readLE32 :: "QByteArray \<Rightarrow> nat \<Rightarrow> 32 word" where
  "readLE32 d off =
     ucast (d ! off) OR push_bit 8 (ucast (d ! (off + 1))) OR
     push_bit 16 (ucast (d ! (off + 2))) OR push_bit 24 (ucast (d ! (off + 3)))"

text \<open>
  \<open>ESP32Response::parse\<close>; \<open>std::nullopt\<close> is \<open>None\<close>. The field \<open>data\<close> stays the
  default (empty) array unless the packet is longer than the header.
\<close>

definition parse :: "QByteArray \<Rightarrow> ESP32Response option" where
  "parse packet =
     (if int (length packet) < 8 then None
      else
        let direction = packet ! 0 in
        if direction \<noteq> 0x01 then None
        else
          let command = packet ! 1;
              size = readLE16 packet 2;
              val = readLE32 packet 4;
              dataEndIndex = min (8 + uint size) (int (length packet));
              data = (if int (length packet) > 8 then mid packet 8 (dataEndIndex - 8) else []);
              status = (if int (length data) \<ge> 1 then data ! 0 else 0);
              error = (if int (length data) \<ge> 2 then data ! 1 else 0)
          in Some \<lparr>direction = direction, command = command, rsp_size = size, rsp_value = val,
                    rsp_data = data, status = status, error = error\<rparr>)"

subsection \<open>protocol/ESP32Protocol.cpp: the packet builders\<close>

definition buildPacket :: "ESP32Command \<Rightarrow> QByteArray \<Rightarrow> 32 word \<Rightarrow> QByteArray" where
  "buildPacket cmd payload checksum =
     appendLE32 (appendLE16 [0x00, opcode cmd] (word_of_int (int (length payload)))) checksum
       @ payload"

text \<open>The checksum loop, with the 8-bit accumulator \<open>checksum\<close>.\<close>

fun checksum_loop :: "QByteArray \<Rightarrow> byte \<Rightarrow> byte" where
  "checksum_loop [] checksum = checksum"
| "checksum_loop (b # bs) checksum = checksum_loop bs (checksum XOR b)"

definition calculateChecksum :: "QByteArray \<Rightarrow> 32 word" where
  "calculateChecksum d = ucast (checksum_loop d CHECKSUM_SEED)"

definition buildSyncCommand :: QByteArray where
  "buildSyncCommand = buildPacket Sync ([0x07, 0x07, 0x12, 0x20] @ replicate 32 0x55) 0"

definition buildSpiAttachCommand :: "32 word \<Rightarrow> QByteArray" where
  "buildSpiAttachCommand config = buildPacket SpiAttach (appendLE32 (appendLE32 [] config) 0) 0"

definition buildFlashBeginCommand ::
  "32 word \<Rightarrow> 32 word \<Rightarrow> 32 word \<Rightarrow> 32 word \<Rightarrow> bool \<Rightarrow> QByteArray" where
  "buildFlashBeginCommand sz numBlocks blockSize offs encrypted =
     buildPacket FlashBegin
       (appendLE32 (appendLE32 (appendLE32 (appendLE32 (appendLE32 [] sz) numBlocks) blockSize)
          offs) (if encrypted then 1 else 0)) 0"

definition buildFlashDataCommand :: "QByteArray \<Rightarrow> 32 word \<Rightarrow> QByteArray" where
  "buildFlashDataCommand blockData sequenceNumber =
     buildPacket FlashData
       (appendLE32 (appendLE32 [] (word_of_int (int (length blockData)))) sequenceNumber
          @ replicate 8 0 @ blockData)
       (calculateChecksum blockData)"

definition buildFlashEndCommand :: "bool \<Rightarrow> QByteArray" where
  "buildFlashEndCommand reboot = buildPacket FlashEnd (appendLE32 [] (if reboot then 0 else 1)) 0"

definition buildChangeBaudCommand :: "32 word \<Rightarrow> 32 word \<Rightarrow> QByteArray" where
  "buildChangeBaudCommand newBaud oldBaud =
     buildPacket ChangeBaudRate (appendLE32 (appendLE32 [] newBaud) oldBaud) 0"

definition buildReadRegCommand :: "32 word \<Rightarrow> QByteArray" where
  "buildReadRegCommand address = buildPacket ReadReg (appendLE32 [] address) 0"

definition buildWriteRegCommand :: "32 word \<Rightarrow> 32 word \<Rightarrow> 32 word \<Rightarrow> 32 word \<Rightarrow> QByteArray" where
  "buildWriteRegCommand address val wmask delayUs =
     buildPacket WriteReg
       (appendLE32 (appendLE32 (appendLE32 (appendLE32 [] address) val) wmask) delayUs) 0"

subsection \<open>models/FirmwareFile: images and the single-file constructor\<close>

text \<open>
  A \<open>QString\<close> is modelled as a \<open>string\<close>. Three library functions are used by the
  constructor: \<open>QFileInfo::fileName\<close> (the part of the path after the last \<open>/\<close>),
  \<open>QString::toLower\<close> (modelled on the ASCII letters; every other character is left as
  it is) and \<open>QString::contains\<close> (case-sensitive search for a contiguous substring).
\<close>

record FirmwareImage =
  filePath :: string
  image_data :: QByteArray
  offset :: "32 word"

definition image_size :: "FirmwareImage \<Rightarrow> int" where
  "image_size img = int (length (image_data img))"

definition QFileInfo_fileName :: "string \<Rightarrow> string" where
  "QFileInfo_fileName path = rev (takeWhile (\<lambda>c. c \<noteq> CHR ''/'') (rev path))"

definition toLower_char :: "char \<Rightarrow> char" where
  "toLower_char c =
     (if (65::nat) \<le> of_char c \<and> of_char c \<le> (90::nat) then char_of (of_char c + (32::nat))
      else c)"

definition toLower :: "string \<Rightarrow> string" where
  "toLower s = map toLower_char s"

fun starts_with :: "'a list \<Rightarrow> 'a list \<Rightarrow> bool" where
  "starts_with s [] = True"
| "starts_with [] (p # ps) = False"
| "starts_with (c # cs) (p # ps) = (c = p \<and> starts_with cs ps)"

fun contains :: "'a list \<Rightarrow> 'a list \<Rightarrow> bool" where
  "contains [] sub = (sub = [])"
| "contains (c # cs) sub = (starts_with (c # cs) sub \<or> contains cs sub)"

text \<open>
  The single-file constructor \<open>FirmwareFile(filePath, data)\<close>; a \<open>FirmwareFile\<close> is
  its vector \<open>m_images\<close>.
\<close>

type_synonym FirmwareFile = "FirmwareImage list"

definition isMergedBinary :: "string \<Rightarrow> bool" where
  "isMergedBinary path =
     (let fileName = toLower (QFileInfo_fileName path)
      in contains fileName ''merged'' \<or> contains fileName ''factory'' \<or>
         contains fileName ''combined'' \<or> contains fileName ''full'')"

definition FirmwareFile_single :: "string \<Rightarrow> QByteArray \<Rightarrow> FirmwareFile" where
  "FirmwareFile_single path d =
     (let offs = (if isMergedBinary path then 0x0000 else 0x10000)
      in [\<lparr>filePath = path, image_data = d, offset = offs\<rparr>])"

fun totalSize_loop :: "FirmwareFile \<Rightarrow> int \<Rightarrow> int" where
  "totalSize_loop [] tot = tot"
| "totalSize_loop (img # imgs) tot = totalSize_loop imgs (tot + image_size img)"

definition totalSize :: "FirmwareFile \<Rightarrow> int" where
  "totalSize fw = totalSize_loop fw 0"

subsection \<open>models/SerialPort.h\<close>

record SerialPort =
  port_id :: string
  port_name :: string
  port_path :: string
  vendorId :: int
  productId :: int

definition isESP32C3 :: "SerialPort \<Rightarrow> bool" where
  "isESP32C3 port \<longleftrightarrow> vendorId port = 0x303A \<and> productId port = 0x1001"

datatype BaudRate = Baud115200 | Baud230400 | Baud460800 | Baud921600

fun baudRateValue :: "BaudRate \<Rightarrow> int" where
  "baudRateValue Baud115200 = 115200"
| "baudRateValue Baud230400 = 230400"
| "baudRateValue Baud460800 = 460800"
| "baudRateValue Baud921600 = 921600"

subsection \<open>models/FlashingState.h\<close>

datatype FlashingStateType =
  Idle | Connecting | Syncing | ChangingBaudRate | Erasing | Flashing | Verifying |
  Restarting | Complete | Error

datatype FlashingErrorType =
  NoError | PortNotFound | ConnectionFailed | SyncFailed | BaudChangeTimeout |
  FlashBeginFailed | FlashDataFailed | FlashEndFailed | ChecksumMismatch | Timeout |
  InvalidFirmware | PortDisconnected | Cancelled

text \<open>
  The structure \<open>FlashingState\<close> with its default member values; the enumerator
  \<open>FlashingErrorType::None\<close> is \<open>NoError\<close> here. The \<open>double\<close> field \<open>progress\<close> is
  a real number: the arithmetic on it is exact in this model.
\<close>

record FlashingState =
  state_type :: FlashingStateType
  progress :: real
  errorType :: FlashingErrorType
  errorMessage :: string
  errorData :: int

definition FlashingState_of :: "FlashingStateType \<Rightarrow> FlashingState" where
  "FlashingState_of t =
     \<lparr>state_type = t, progress = 0, errorType = NoError, errorMessage = [], errorData = 0\<rparr>"

definition FlashingState_connecting :: FlashingState where
  "FlashingState_connecting = FlashingState_of Connecting"

definition FlashingState_syncing :: FlashingState where
  "FlashingState_syncing = FlashingState_of Syncing"

definition FlashingState_changingBaudRate :: FlashingState where
  "FlashingState_changingBaudRate = FlashingState_of ChangingBaudRate"

definition FlashingState_erasing :: FlashingState where
  "FlashingState_erasing = FlashingState_of Erasing"

definition FlashingState_flashing :: "real \<Rightarrow> FlashingState" where
  "FlashingState_flashing p = (FlashingState_of Flashing)\<lparr>progress := p\<rparr>"

definition FlashingState_verifying :: FlashingState where
  "FlashingState_verifying = FlashingState_of Verifying"

definition FlashingState_restarting :: FlashingState where
  "FlashingState_restarting = FlashingState_of Restarting"

definition FlashingState_complete :: FlashingState where
  "FlashingState_complete = FlashingState_of Complete"

definition FlashingState_error :: "FlashingErrorType \<Rightarrow> string \<Rightarrow> int \<Rightarrow> FlashingState" where
  "FlashingState_error t message d =
     (FlashingState_of Error)\<lparr>errorType := t, errorMessage := message, errorData := d\<rparr>"

subsection \<open>Exceptions\<close>

text \<open>
  The two exception classes that cross function boundaries: \<open>std::runtime_error\<close> with
  its message, and \<open>SerialError\<close> with its type. The text that \<open>strerror\<close> gives for
  the error code belongs to the platform; the environment supplies it, and the exception
  carries it in place of the code.
\<close>

datatype SerialErrorType =
  CannotOpen | WriteFailed | ReadFailed | SerialTimeout | InvalidConfiguration | NotConnected

datatype exn = RuntimeError string | SerialError SerialErrorType string

fun errorDescription :: "SerialErrorType \<Rightarrow> string \<Rightarrow> string" where
  "errorDescription CannotOpen err = ''Cannot open port: '' @ err"
| "errorDescription WriteFailed err = ''Write failed: '' @ err"
| "errorDescription ReadFailed err = ''Read failed: '' @ err"
| "errorDescription SerialTimeout err = ''Operation timed out''"
| "errorDescription InvalidConfiguration err = ''Invalid serial configuration''"
| "errorDescription NotConnected err = ''Not connected''"

fun what :: "exn \<Rightarrow> string" where
  "what (RuntimeError msg) = msg"
| "what (SerialError t err) = errorDescription t err"

subsection \<open>Number formatting of \<open>QString::arg\<close>\<close>

definition digit_char :: "nat \<Rightarrow> char" where
  "digit_char n = (if n < 10 then char_of (48 + n) else char_of (87 + n))"

function show_nat :: "nat \<Rightarrow> string" where
  "show_nat n = (if n < 10 then [digit_char n] else show_nat (n div 10) @ [digit_char (n mod 10)])"
  by pat_completeness auto
termination
  by (relation "measure id") auto

text \<open>\<open>QString::arg(int)\<close>: the decimal digits, with a minus sign for a negative value.\<close>

definition arg_int :: "int \<Rightarrow> string" where
  "arg_int i = (if i < 0 then CHR ''-'' # show_nat (nat (- i)) else show_nat (nat i))"

text \<open>\<open>QString::arg(address, 8, 16, QChar('0'))\<close>: hexadecimal, padded to 8 digits.\<close>

definition arg_hex8 :: "32 word \<Rightarrow> string" where
  "arg_hex8 w = map (\<lambda>i. digit_char (unat (drop_bit (4 * i) w AND 0xF))) [7, 6, 5, 4, 3, 2, 1, 0]"

subsection \<open>The worker's state, its environment and its trace\<close>

text \<open>
  Where the worker looks at the cancellation flag \<open>m_isCancelled\<close>: at the top of the
  image loop and of the block loop, in each iteration of \<open>waitForResponse\<close> (for the
  command awaited), and in the \<open>catch\<close> block of \<open>runFlashing\<close>.
\<close>

datatype site = ImageLoop | BlockLoop | WaitPoll ESP32Command | ErrorHandler

text \<open>
  What the worker does to the outside, in order: the signals it emits, what it does to the
  port, its sleeps (milliseconds), and each look at the cancellation flag with the value
  seen. \<open>Write\<close> records the bytes handed to \<open>SerialConnection::write\<close> on an open
  port, whether or not the write then fails.
\<close>

datatype event =
    StateChanged FlashingState
  | Finished bool
  | PortOpen bool
  | PortClose
  | Write QByteArray
  | Flush
  | SetBaud BaudRate
  | DTR bool
  | RTS bool
  | Sleep nat
  | CancelCheck site bool

text \<open>One outcome of \<open>SerialConnection::read\<close> on an open port.\<close>

datatype read_result = ReadBytes QByteArray | ReadFail string

text \<open>
  The state of one run of the worker thread.
  \<^item> \<open>fd_open\<close>: \<open>m_fd >= 0\<close> of the connection; \<open>m_isFlashing\<close>, \<open>decoder\<close>
    (\<open>m_slipDecoder\<close>) as in the class; \<open>syncSucceeded\<close> and \<open>opened\<close> are the two
    locals of \<open>runFlashing\<close> that are assigned inside \<open>try\<close> blocks.
  \<^item> The environment, consumed in order: \<open>opens\<close> gives for each call of \<open>open\<close>
    whether it succeeds (\<open>None\<close>) or the \<open>strerror\<close> text of its failure;
    \<open>write_errs\<close> the same for each \<open>write\<close> of a non-empty array;
    \<open>baud_errs\<close> whether \<open>tcsetattr\<close> fails in \<open>setBaudRate\<close>; \<open>reads\<close> gives for
    each call of \<open>waitForResponse\<close> the outcomes of the reads of the loop iterations that
    begin before its deadline. An exhausted list means success for \<open>opens\<close>,
    \<open>write_errs\<close> and \<open>baud_errs\<close>, and no iteration at all for \<open>reads\<close>.
  \<^item> \<open>cancel_at\<close>: the other thread's \<open>cancel()\<close>. The flag is set once and stays
    set during the run, so the worker's looks at it see \<open>false\<close> up to some look and
    \<open>true\<close> from then on: \<open>cancel_at = Some k\<close> says that the look number \<open>k\<close>
    (counting from 0) is the first to see \<open>true\<close>, \<open>None\<close> that none does. \<open>tick\<close>
    counts the looks so far.
  \<^item> \<open>trace\<close>: the events so far, oldest first.
\<close>

record world =
  fd_open :: bool
  m_isFlashing :: bool
  decoder :: SLIPDecoder
  syncSucceeded :: bool
  opened :: bool
  opens :: "string option list"
  write_errs :: "string option list"
  baud_errs :: "bool list"
  reads :: "read_result list list"
  cancel_at :: "nat option"
  tick :: nat
  trace :: "event list"

text \<open>
  A computation runs on the state and either returns a value or throws; \<open>Inl\<close> is the
  exception in flight.
\<close>

type_synonym 'a M = "world \<Rightarrow> (exn + 'a) \<times> world"

definition returnM :: "'a \<Rightarrow> 'a M" where
  "returnM x = (\<lambda>s. (Inr x, s))"

definition throw :: "exn \<Rightarrow> 'a M" where
  "throw e = (\<lambda>s. (Inl e, s))"

definition bindM :: "'a M \<Rightarrow> ('a \<Rightarrow> 'b M) \<Rightarrow> 'b M" where
  "bindM m f = (\<lambda>s. case m s of (Inl e, s') \<Rightarrow> (Inl e, s') | (Inr x, s') \<Rightarrow> f x s')"

text \<open>\<open>try { m } catch (...) { h }\<close>.\<close>

definition try_catch :: "'a M \<Rightarrow> (exn \<Rightarrow> 'a M) \<Rightarrow> 'a M" where
  "try_catch m h = (\<lambda>s. case m s of (Inl e, s') \<Rightarrow> h e s' | (Inr x, s') \<Rightarrow> (Inr x, s'))"

text \<open>A sequence of statements: each runs after the one before it has returned.\<close>

fun steps :: "unit M list \<Rightarrow> unit M" where
  "steps [] = returnM ()"
| "steps (m # ms) = bindM m (\<lambda>_. steps ms)"

definition log :: "event \<Rightarrow> unit M" where
  "log e = (\<lambda>s. (Inr (), s\<lparr>trace := trace s @ [e]\<rparr>))"

definition emit_stateChanged :: "FlashingState \<Rightarrow> unit M" where
  "emit_stateChanged st = log (StateChanged st)"

definition emit_finished :: "bool \<Rightarrow> unit M" where
  "emit_finished ok = log (Finished ok)"

definition sleepMs :: "nat \<Rightarrow> unit M" where
  "sleepMs ms = log (Sleep ms)"

text \<open>Reading \<open>m_isCancelled\<close> at a site.\<close>

definition isCancelled :: "site \<Rightarrow> bool M" where
  "isCancelled here = (\<lambda>s.
     let c = (case cancel_at s of None \<Rightarrow> False | Some k \<Rightarrow> k \<le> tick s)
     in (Inr c, s\<lparr>tick := tick s + 1, trace := trace s @ [CancelCheck here c]\<rparr>))"

subsection \<open>serial/SerialConnection.cpp\<close>

definition conn_open :: "string \<Rightarrow> unit M" where
  "conn_open path = (\<lambda>s.
     case opens s of
       Some err # rest \<Rightarrow>
         (Inl (SerialError CannotOpen err),
          s\<lparr>opens := rest, fd_open := False, trace := trace s @ [PortOpen False]\<rparr>)
     | None # rest \<Rightarrow>
         (Inr (), s\<lparr>opens := rest, fd_open := True, trace := trace s @ [PortOpen True, Flush]\<rparr>)
     | [] \<Rightarrow> (Inr (), s\<lparr>fd_open := True, trace := trace s @ [PortOpen True, Flush]\<rparr>))"

definition conn_close :: "unit M" where
  "conn_close = (\<lambda>s.
     if fd_open s then (Inr (), s\<lparr>fd_open := False, trace := trace s @ [PortClose]\<rparr>)
     else (Inr (), s))"

definition conn_setBaudRate :: "BaudRate \<Rightarrow> unit M" where
  "conn_setBaudRate rate = (\<lambda>s.
     if \<not> fd_open s then (Inl (SerialError NotConnected []), s)
     else case baud_errs s of
       True # rest \<Rightarrow> (Inl (SerialError InvalidConfiguration []), s\<lparr>baud_errs := rest\<rparr>)
     | False # rest \<Rightarrow>
         (Inr (), s\<lparr>baud_errs := rest, trace := trace s @ [SetBaud rate, Flush]\<rparr>)
     | [] \<Rightarrow> (Inr (), s\<lparr>trace := trace s @ [SetBaud rate, Flush]\<rparr>))"

text \<open>
  \<open>write\<close>: the loop over partial writes either gets every byte out or ends with
  \<open>WriteFailed\<close>; for an empty array it does not run.
\<close>

definition conn_write :: "QByteArray \<Rightarrow> unit M" where
  "conn_write bs = (\<lambda>s.
     if \<not> fd_open s then (Inl (SerialError NotConnected []), s)
     else if bs = [] then (Inr (), s\<lparr>trace := trace s @ [Write bs]\<rparr>)
     else case write_errs s of
       Some err # rest \<Rightarrow>
         (Inl (SerialError WriteFailed err),
          s\<lparr>write_errs := rest, trace := trace s @ [Write bs]\<rparr>)
     | None # rest \<Rightarrow> (Inr (), s\<lparr>write_errs := rest, trace := trace s @ [Write bs]\<rparr>)
     | [] \<Rightarrow> (Inr (), s\<lparr>trace := trace s @ [Write bs]\<rparr>))"

text \<open>
  \<open>read\<close> with the outcome the environment has for this call: the bytes available (at
  most the 4096 of the buffer; none on a timeout or \<open>EAGAIN\<close>) or a failure.
\<close>

definition conn_read :: "read_result \<Rightarrow> QByteArray M" where
  "conn_read outcome = (\<lambda>s.
     if \<not> fd_open s then (Inl (SerialError NotConnected []), s)
     else case outcome of
       ReadFail err \<Rightarrow> (Inl (SerialError ReadFailed err), s)
     | ReadBytes bs \<Rightarrow> (Inr (take 4096 bs), s))"

definition conn_flush :: "unit M" where
  "conn_flush = (\<lambda>s. if fd_open s then (Inr (), s\<lparr>trace := trace s @ [Flush]\<rparr>) else (Inr (), s))"

definition setDTR :: "bool \<Rightarrow> unit M" where
  "setDTR v = (\<lambda>s.
     if \<not> fd_open s then (Inl (SerialError NotConnected []), s)
     else (Inr (), s\<lparr>trace := trace s @ [DTR v]\<rparr>))"

definition setRTS :: "bool \<Rightarrow> unit M" where
  "setRTS v = (\<lambda>s.
     if \<not> fd_open s then (Inl (SerialError NotConnected []), s)
     else (Inr (), s\<lparr>trace := trace s @ [RTS v]\<rparr>))"

definition setDTRRTS :: "bool \<Rightarrow> bool \<Rightarrow> unit M" where
  "setDTRRTS dtr rts = (\<lambda>s.
     if \<not> fd_open s then (Inl (SerialError NotConnected []), s)
     else (Inr (), s\<lparr>trace := trace s @ [DTR dtr, RTS rts]\<rparr>))"

definition usbJtagSerialReset :: "unit M" where
  "usbJtagSerialReset =
     steps [setRTS False, setDTR False, sleepMs 100,
            setDTR True, setRTS False, sleepMs 100,
            setRTS True, setDTR False, setRTS True, sleepMs 100,
            setDTR False, setRTS False,
            sleepMs 50]"

definition classicReset :: "unit M" where
  "classicReset =
     steps [setDTRRTS False True, sleepMs 100,
            setDTRRTS True False, sleepMs 50,
            setDTR False, sleepMs 50]"

definition enterBootloaderMode :: "bool \<Rightarrow> unit M" where
  "enterBootloaderMode isUSBJTAGSerial =
     steps [if isUSBJTAGSerial then usbJtagSerialReset else classicReset, conn_flush]"

definition hardReset :: "unit M" where
  "hardReset =
     steps [setDTR False, sleepMs 50,
            setRTS True, sleepMs 100,
            setRTS False, sleepMs 100]"
subsection \<open>services/FlashingService: constants and register addresses\<close>

definition SYNC_RETRIES :: int where
  "SYNC_RETRIES = 20"

text \<open>Timeouts are in milliseconds here (\<open>RESPONSE_TIMEOUT\<close> is 5.0 seconds).\<close>

definition RESPONSE_TIMEOUT :: nat where
  "RESPONSE_TIMEOUT = 5000"

definition BLOCK_DELAY_MS :: nat where
  "BLOCK_DELAY_MS = 5"

definition SYNC_RETRY_DELAY_MS :: nat where
  "SYNC_RETRY_DELAY_MS = 50"

definition RTC_CNTL_BASE :: "32 word" where
  "RTC_CNTL_BASE = 0x60008000"

definition RTC_WDT_CONFIG0 :: "32 word" where
  "RTC_WDT_CONFIG0 = RTC_CNTL_BASE + 0x0090"

definition RTC_WDT_WPROTECT :: "32 word" where
  "RTC_WDT_WPROTECT = RTC_CNTL_BASE + 0x00A8"

definition RTC_WDT_WKEY :: "32 word" where
  "RTC_WDT_WKEY = 0x50D83AA1"

definition SWD_CONF :: "32 word" where
  "SWD_CONF = RTC_CNTL_BASE + 0x00AC"

definition SWD_WPROTECT :: "32 word" where
  "SWD_WPROTECT = RTC_CNTL_BASE + 0x00B0"

definition SWD_WKEY :: "32 word" where
  "SWD_WKEY = 0x8F1D312A"

definition WDT_EN_BIT :: "32 word" where
  "WDT_EN_BIT = push_bit 31 1"

definition SWD_AUTO_FEED_EN_BIT :: "32 word" where
  "SWD_AUTO_FEED_EN_BIT = push_bit 31 1"

subsection \<open>services/FlashingService.cpp: \<open>waitForResponse\<close>\<close>

text \<open>The loop over the decoded packets: the first one that parses with the awaited opcode.\<close>

fun find_response :: "ESP32Command \<Rightarrow> QByteArray list \<Rightarrow> ESP32Response option" where
  "find_response cmd [] = None"
| "find_response cmd (packet # packets) =
     (case parse packet of
        Some response \<Rightarrow>
          if command response = opcode cmd then Some response else find_response cmd packets
      | None \<Rightarrow> find_response cmd packets)"

text \<open>Feeding the bytes read to \<open>m_slipDecoder\<close>.\<close>

definition decoder_process :: "QByteArray \<Rightarrow> (QByteArray list) M" where
  "decoder_process bs = (\<lambda>s.
     case process bs (decoder s) of (packets, d) \<Rightarrow> (Inr packets, s\<lparr>decoder := d\<rparr>))"

text \<open>
  The \<open>while\<close> loop, over the read outcomes of the iterations that begin before the
  deadline. Each iteration looks at the cancellation flag first. The \<open>try\<close> block reads,
  decodes and looks for the response; a \<open>SerialError\<close> of type \<open>Timeout\<close> continues the
  loop, any other exception leaves it. Running out of iterations is the deadline: the
  function throws its timeout message.
\<close>

fun wait_loop :: "ESP32Command \<Rightarrow> read_result list \<Rightarrow> ESP32Response M" where
  "wait_loop cmd [] =
     throw (RuntimeError (''Timeout waiting for '' @ arg_int (uint (opcode cmd)) @ '' response''))"
| "wait_loop cmd (outcome # later) =
     bindM (isCancelled (WaitPoll cmd)) (\<lambda>c.
       if c then throw (RuntimeError ''Cancelled'')
       else
         bindM
           (try_catch
              (bindM (conn_read outcome) (\<lambda>bs.
                 bindM (decoder_process bs) (\<lambda>packets.
                   returnM (find_response cmd packets))))
              (\<lambda>e. case e of
                      SerialError t err \<Rightarrow> if t = SerialTimeout then returnM None else throw e
                    | RuntimeError msg \<Rightarrow> throw e))
           (\<lambda>found. case found of
                       Some response \<Rightarrow> returnM response
                     | None \<Rightarrow> wait_loop cmd later))"

text \<open>
  \<open>waitForResponse(command, timeout)\<close>. The deadline is not computed in the model: the
  environment's next entry of \<open>reads\<close> says how many iterations fit before it.
\<close>

definition waitForResponse :: "ESP32Command \<Rightarrow> nat \<Rightarrow> ESP32Response M" where
  "waitForResponse cmd timeout_ms = (\<lambda>s.
     case reads s of
       [] \<Rightarrow> wait_loop cmd [] (s\<lparr>decoder := reset (decoder s)\<rparr>)
     | polls # rest \<Rightarrow> wait_loop cmd polls (s\<lparr>reads := rest, decoder := reset (decoder s)\<rparr>))"

subsection \<open>services/FlashingService.cpp: the commands\<close>

definition performSync :: "unit M" where
  "performSync =
     steps
       ([conn_write (encode buildSyncCommand),
         bindM (waitForResponse Sync 1000) (\<lambda>response.
           if \<not> isSuccess response then throw (RuntimeError ''Sync failed'') else returnM ())]
        @ replicate 7
            (try_catch (bindM (waitForResponse Sync 100) (\<lambda>_. returnM ())) (\<lambda>_. returnM ()))
        @ [conn_flush])"

function syncWithRetry_loop :: "int \<Rightarrow> unit M" where
  "syncWithRetry_loop attempt =
     (if attempt \<le> SYNC_RETRIES then
        try_catch performSync (\<lambda>_.
          if attempt = SYNC_RETRIES then throw (RuntimeError ''Failed to sync with bootloader'')
          else steps [sleepMs SYNC_RETRY_DELAY_MS, syncWithRetry_loop (attempt + 1)])
      else returnM ())"
  by pat_completeness auto
termination
  by (relation "measure (\<lambda>attempt. nat (SYNC_RETRIES + 1 - attempt))") auto

definition syncWithRetry :: "unit M" where
  "syncWithRetry = syncWithRetry_loop 1"

definition changeBaudRate :: "BaudRate \<Rightarrow> unit M" where
  "changeBaudRate rate =
     steps [conn_write (encode (buildChangeBaudCommand (word_of_int (baudRateValue rate)) 115200)),
            sleepMs 50,
            conn_setBaudRate rate,
            sleepMs 50,
            performSync]"

definition spiAttach :: "unit M" where
  "spiAttach =
     steps [conn_write (encode (buildSpiAttachCommand 0)),
            bindM (waitForResponse SpiAttach 3000) (\<lambda>response.
              if \<not> isSuccess response then
                throw (RuntimeError (''SPI attach failed: status='' @ arg_int (uint (status response))
                                      @ '', error='' @ arg_int (uint (error response))))
              else returnM ())]"

definition readReg :: "32 word \<Rightarrow> (32 word) M" where
  "readReg address =
     bindM (conn_write (encode (buildReadRegCommand address))) (\<lambda>_.
       bindM (waitForResponse ReadReg 1000) (\<lambda>response.
         if \<not> isSuccess response then
           throw (RuntimeError (''READ_REG failed at 0x'' @ arg_hex8 address))
         else returnM (rsp_value response)))"

definition writeReg :: "32 word \<Rightarrow> 32 word \<Rightarrow> unit M" where
  "writeReg address val =
     steps [conn_write (encode (buildWriteRegCommand address val 0xFFFFFFFF 0)),
            bindM (waitForResponse WriteReg 1000) (\<lambda>response.
              if \<not> isSuccess response then
                throw (RuntimeError (''WRITE_REG failed at 0x'' @ arg_hex8 address))
              else returnM ())]"

definition disableWatchdogs :: "unit M" where
  "disableWatchdogs =
     steps [writeReg RTC_WDT_WPROTECT RTC_WDT_WKEY,
            bindM (readReg RTC_WDT_CONFIG0) (\<lambda>wdtConfig.
              writeReg RTC_WDT_CONFIG0 (wdtConfig AND NOT WDT_EN_BIT)),
            writeReg RTC_WDT_WPROTECT 0,
            writeReg SWD_WPROTECT SWD_WKEY,
            bindM (readReg SWD_CONF) (\<lambda>swdConfig.
              writeReg SWD_CONF (swdConfig OR SWD_AUTO_FEED_EN_BIT)),
            writeReg SWD_WPROTECT 0]"

definition flashBegin :: "32 word \<Rightarrow> 32 word \<Rightarrow> 32 word \<Rightarrow> 32 word \<Rightarrow> unit M" where
  "flashBegin sz numBlocks blockSize offs =
     steps [conn_write (encode (buildFlashBeginCommand sz numBlocks blockSize offs False)),
            bindM (waitForResponse FlashBegin 30000) (\<lambda>response.
              if \<not> isSuccess response then
                throw (RuntimeError (''Flash begin failed: status='' @ arg_int (uint (status response))))
              else returnM ())]"

definition flashData :: "QByteArray \<Rightarrow> int \<Rightarrow> unit M" where
  "flashData block sequenceNumber =
     steps [conn_write (encode (buildFlashDataCommand block (word_of_int sequenceNumber))),
            bindM (waitForResponse FlashData RESPONSE_TIMEOUT) (\<lambda>response.
              if \<not> isSuccess response then
                throw (RuntimeError (''Flash data failed at block '' @ arg_int sequenceNumber
                                      @ '': status='' @ arg_int (uint (status response))))
              else returnM ())]"

definition flashEnd :: "bool \<Rightarrow> bool \<Rightarrow> unit M" where
  "flashEnd reboot isUSBJTAGSerial =
     steps [conn_write (encode (buildFlashEndCommand reboot)),
            try_catch
              (bindM (waitForResponse FlashEnd 2000) (\<lambda>response.
                 if \<not> isSuccess response \<and> \<not> reboot then throw (RuntimeError ''Flash end failed'')
                 else returnM ()))
              (\<lambda>e. if \<not> reboot then throw e else returnM ()),
            if reboot \<and> isUSBJTAGSerial then hardReset else returnM ()]"

subsection \<open>services/FlashingService.cpp: \<open>runFlashing\<close>\<close>

definition cleanup :: "unit M" where
  "cleanup = steps [conn_close, (\<lambda>s. (Inr (), s\<lparr>m_isFlashing := False\<rparr>))]"

text \<open>\<open>if (m_isCancelled) throw std::runtime_error("Cancelled")\<close>.\<close>

definition throw_if_cancelled :: "site \<Rightarrow> unit M" where
  "throw_if_cancelled here =
     bindM (isCancelled here) (\<lambda>c. if c then throw (RuntimeError ''Cancelled'') else returnM ())"

text \<open>
  The slice of the image for one block (the locals \<open>start\<close> and \<open>end\<close>; \<open>end\<close> is \<open>stop\<close> here), padded with \<open>0xFF\<close> to the block size: the
  first statements of the body of the block loop.
\<close>

definition blockData :: "FirmwareImage \<Rightarrow> int \<Rightarrow> QByteArray" where
  "blockData img blockNum =
     (let blockSize = FLASH_BLOCK_SIZE;
          start = blockNum * blockSize;
          stop = min (start + blockSize) (image_size img);
          slice = mid (image_data img) start (stop - start)
      in if int (length slice) < blockSize
         then slice @ replicate (nat (blockSize - int (length slice))) 0xFF
         else slice)"

definition overallProgress :: "FirmwareImage \<Rightarrow> int \<Rightarrow> int \<Rightarrow> int \<Rightarrow> int \<Rightarrow> real" where
  "overallProgress img totalBytes bytesFlashed numBlocks blockNum =
     (let imageProgress = real_of_int (blockNum + 1) / real_of_int numBlocks
      in (real_of_int bytesFlashed + imageProgress * real_of_int (image_size img))
           / real_of_int totalBytes)"

text \<open>The block loop \<open>for (blockNum = 0; blockNum < numBlocks; ++blockNum)\<close>, from \<open>blockNum\<close> on.\<close>

function flash_blocks :: "FirmwareImage \<Rightarrow> int \<Rightarrow> int \<Rightarrow> int \<Rightarrow> int \<Rightarrow> unit M" where
  "flash_blocks img totalBytes bytesFlashed numBlocks blockNum =
     (if blockNum < numBlocks then
        steps [throw_if_cancelled BlockLoop,
               emit_stateChanged
                 (FlashingState_flashing
                    (overallProgress img totalBytes bytesFlashed numBlocks blockNum)),
               flashData (blockData img blockNum) blockNum,
               sleepMs BLOCK_DELAY_MS,
               flash_blocks img totalBytes bytesFlashed numBlocks (blockNum + 1)]
      else returnM ())"
  by pat_completeness auto
termination
  by (relation "measure (\<lambda>(img, totalBytes, bytesFlashed, numBlocks, blockNum).
                            nat (numBlocks - blockNum))") auto

definition numBlocks_of :: "FirmwareImage \<Rightarrow> int" where
  "numBlocks_of img = (image_size img + FLASH_BLOCK_SIZE - 1) div FLASH_BLOCK_SIZE"

text \<open>The image loop, with the local \<open>bytesFlashed\<close>.\<close>

fun flash_images :: "FirmwareImage list \<Rightarrow> int \<Rightarrow> int \<Rightarrow> unit M" where
  "flash_images [] totalBytes bytesFlashed = returnM ()"
| "flash_images (img # rest) totalBytes bytesFlashed =
     steps [throw_if_cancelled ImageLoop,
            emit_stateChanged FlashingState_erasing,
            flashBegin (word_of_int (image_size img)) (word_of_int (numBlocks_of img))
              (word_of_int FLASH_BLOCK_SIZE) (offset img),
            flash_blocks img totalBytes bytesFlashed (numBlocks_of img) 0,
            flash_images rest totalBytes (bytesFlashed + image_size img)]"

text \<open>The loop that reopens the port, \<open>for (attempt = 1; attempt <= 5; ++attempt)\<close>.\<close>

function reopen_loop :: "string \<Rightarrow> int \<Rightarrow> unit M" where
  "reopen_loop path attempt =
     (if attempt \<le> 5 then
        try_catch
          (steps [conn_open path, (\<lambda>s. (Inr (), s\<lparr>opened := True\<rparr>))])
          (\<lambda>_. steps [if attempt < 5 then sleepMs 500 else returnM (),
                      reopen_loop path (attempt + 1)])
      else returnM ())"
  by pat_completeness auto
termination
  by (relation "measure (\<lambda>(path, attempt). nat (6 - attempt))") auto

text \<open>
  Sections 1 to 5 of the \<open>try\<close> block of \<open>runFlashing\<close>: connect, enter the bootloader,
  sync (with the reopen path when the first sync fails), change the baud rate, attach the
  SPI flash.
\<close>

definition runFlashing_connect :: "SerialPort \<Rightarrow> BaudRate \<Rightarrow> unit M" where
  "runFlashing_connect port baudRate =
     (let isUSBJTAGSerial = isESP32C3 port in
      steps [emit_stateChanged FlashingState_connecting,
             conn_open (port_path port),
             enterBootloaderMode isUSBJTAGSerial,
             sleepMs 500,
             conn_flush,
             (\<lambda>s. (Inr (), s\<lparr>syncSucceeded := False\<rparr>)),
             try_catch
               (steps [emit_stateChanged FlashingState_syncing,
                       syncWithRetry,
                       (\<lambda>s. (Inr (), s\<lparr>syncSucceeded := True\<rparr>)),
                       if isUSBJTAGSerial then disableWatchdogs else returnM ()])
               (\<lambda>_. returnM ()),
             (\<lambda>s. if \<not> syncSucceeded s then
                    steps [conn_close,
                           sleepMs 2000,
                           (\<lambda>s. (Inr (), s\<lparr>opened := False\<rparr>)),
                           reopen_loop (port_path port) 1,
                           (\<lambda>s. if \<not> opened s
                                 then throw (RuntimeError ''Could not reopen port after reset'') s
                                 else returnM () s),
                           conn_flush,
                           emit_stateChanged FlashingState_syncing,
                           syncWithRetry,
                           if isUSBJTAGSerial then disableWatchdogs else returnM ()] s
                  else returnM () s),
             if baudRate \<noteq> Baud115200 then
               steps [emit_stateChanged FlashingState_changingBaudRate, changeBaudRate baudRate]
             else returnM (),
             spiAttach])"

text \<open>Sections 7 and 8: verify, end the flash and reboot, report completion.\<close>

definition runFlashing_finish :: "SerialPort \<Rightarrow> unit M" where
  "runFlashing_finish port =
     steps [emit_stateChanged FlashingState_verifying,
            sleepMs 100,
            emit_stateChanged FlashingState_restarting,
            flashEnd True (isESP32C3 port),
            sleepMs 1000,
            emit_stateChanged FlashingState_complete,
            cleanup,
            emit_finished True]"

text \<open>The \<open>catch\<close> block of \<open>runFlashing\<close>.\<close>

definition runFlashing_catch :: "exn \<Rightarrow> unit M" where
  "runFlashing_catch e =
     steps [cleanup,
            (let errorMsg = what e in
             bindM (isCancelled ErrorHandler) (\<lambda>c.
               if c \<or> contains errorMsg ''Cancelled'' then
                 emit_stateChanged (FlashingState_error Cancelled [] 0)
               else if contains errorMsg ''sync'' then
                 emit_stateChanged (FlashingState_error SyncFailed errorMsg SYNC_RETRIES)
               else if contains errorMsg ''Cannot open'' \<or> contains errorMsg ''reopen'' then
                 emit_stateChanged (FlashingState_error ConnectionFailed errorMsg 0)
               else
                 emit_stateChanged (FlashingState_error ConnectionFailed errorMsg 0))),
            emit_finished False]"

definition runFlashing :: "FirmwareFile \<Rightarrow> SerialPort \<Rightarrow> BaudRate \<Rightarrow> unit M" where
  "runFlashing firmware port baudRate =
     try_catch
       (steps [runFlashing_connect port baudRate,
               flash_images firmware (totalSize firmware) 0,
               runFlashing_finish port])
       runFlashing_catch"

subsection \<open>A run of the worker thread\<close>

text \<open>
  What the environment of one run consists of (see the fields of \<open>world\<close> with the same
  names).
\<close>

record environment =
  env_opens :: "string option list"
  env_write_errs :: "string option list"
  env_baud_errs :: "bool list"
  env_reads :: "read_result list list"
  env_cancel_at :: "nat option"

text \<open>
  The state in which the worker thread starts: \<open>flash\<close> has set \<open>m_isFlashing\<close> and
  cleared the cancellation flag, \<open>runFlashing\<close> has made a new, closed connection.
\<close>

definition thread_start :: "environment \<Rightarrow> world" where
  "thread_start env =
     \<lparr>fd_open = False, m_isFlashing = True, decoder = SLIPDecoder_init,
      syncSucceeded = False, opened = False,
      opens = env_opens env, write_errs = env_write_errs env, baud_errs = env_baud_errs env,
      reads = env_reads env, cancel_at = env_cancel_at env, tick = 0, trace = []\<rparr>"

definition run :: "FirmwareFile \<Rightarrow> SerialPort \<Rightarrow> BaudRate \<Rightarrow> environment \<Rightarrow> world" where
  "run firmware port baudRate env = snd (runFlashing firmware port baudRate (thread_start env))"

text \<open>The states emitted by a run, in order, and the last of them.\<close>

fun emitted_states :: "event list \<Rightarrow> FlashingState list" where
  "emitted_states [] = []"
| "emitted_states (StateChanged st # es) = st # emitted_states es"
| "emitted_states (e # es) = emitted_states es"

definition terminal_state :: "world \<Rightarrow> FlashingState option" where
  "terminal_state s =
     (case emitted_states (trace s) of [] \<Rightarrow> None | st # sts \<Rightarrow> Some (last (st # sts)))"


subsection \<open>Reading a trace\<close>

text \<open>
  The command that a written frame carries: the opcode byte of its decoded header.
\<close>

definition written_command :: "QByteArray \<Rightarrow> byte option" where
  "written_command bs = (case decode bs of dir # op # rest \<Rightarrow> Some op | _ \<Rightarrow> None)"

text \<open>The frames written that carry the command \<open>cmd\<close>, in the order of writing.\<close>

fun writes_of :: "ESP32Command \<Rightarrow> event list \<Rightarrow> QByteArray list" where
  "writes_of cmd [] = []"
| "writes_of cmd (Write bs # es) =
     (if written_command bs = Some (opcode cmd) then bs # writes_of cmd es else writes_of cmd es)"
| "writes_of cmd (e # es) = writes_of cmd es"

text \<open>The progress values of the \<open>Flashing\<close> states emitted, in order.\<close>

fun flashing_progress :: "event list \<Rightarrow> real list" where
  "flashing_progress [] = []"
| "flashing_progress (StateChanged st # es) =
     (if state_type st = Flashing then progress st # flashing_progress es
      else flashing_progress es)"
| "flashing_progress (e # es) = flashing_progress es"

text \<open>
  The number that bytes stand for when the least significant one comes first, and what a
  written \<open>FLASH_DATA\<close> frame carries: after the 8 bytes of the packet header the data
  length and the sequence number, 4 bytes each, then 8 reserved bytes, then the data.
\<close>

fun le_value :: "QByteArray \<Rightarrow> int" where
  "le_value [] = 0"
| "le_value (b # bs) = uint b + 256 * le_value bs"

definition sent_block :: "QByteArray \<Rightarrow> int \<times> int \<times> QByteArray" where
  "sent_block bs =
     (let packet = decode bs
      in (le_value (take 4 (drop 8 packet)), le_value (take 4 (drop 12 packet)), drop 24 packet))"
section \<open>Notions for reasoning about runs\<close>

text \<open>
  \<open>seen s\<close>: some look at the cancellation flag before \<open>s\<close> has seen it set. The flag
  stays set, so \<open>seen\<close> persists, and the next look sees it set as well.
\<close>

definition seen :: "world \<Rightarrow> bool" where
  "seen s \<longleftrightarrow> (case cancel_at s of None \<Rightarrow> False | Some k \<Rightarrow> k < tick s)"

definition saw_cancel :: "event list \<Rightarrow> bool" where
  "saw_cancel es \<longleftrightarrow> (\<exists>here. CancelCheck here True \<in> set es)"

text \<open>
  \<open>extends P s s'\<close>: from \<open>s\<close> to \<open>s'\<close> the flag's script is untouched, the looks are
  counted, the trace grows by events that satisfy \<open>P\<close>, and a look among them that saw
  the flag set is remembered by \<open>seen\<close>.
\<close>

definition extends :: "(event \<Rightarrow> bool) \<Rightarrow> world \<Rightarrow> world \<Rightarrow> bool" where
  "extends P s s' \<longleftrightarrow>
     cancel_at s' = cancel_at s \<and> tick s \<le> tick s' \<and>
     (\<exists>es. trace s' = trace s @ es \<and> list_all P es \<and> (saw_cancel es \<longrightarrow> seen s'))"

definition obeys :: "(event \<Rightarrow> bool) \<Rightarrow> 'a M \<Rightarrow> bool" where
  "obeys P m \<longleftrightarrow> (\<forall>s r s'. m s = (r, s') \<longrightarrow> extends P s s')"

fun connect_event :: "event \<Rightarrow> bool" where
  "connect_event (StateChanged st) =
     (st = FlashingState_connecting \<or> st = FlashingState_syncing \<or>
      st = FlashingState_changingBaudRate)"
| "connect_event (Finished b) = False"
| "connect_event (Write bs) =
     (written_command bs = Some (opcode Sync) \<or> written_command bs = Some (opcode ChangeBaudRate) \<or>
      written_command bs = Some (opcode SpiAttach) \<or> written_command bs = Some (opcode ReadReg) \<or>
      written_command bs = Some (opcode WriteReg))"
| "connect_event (CancelCheck here b) =
     (here = WaitPoll Sync \<or> here = WaitPoll SpiAttach \<or> here = WaitPoll ReadReg \<or>
      here = WaitPoll WriteReg)"
| "connect_event e = True"

fun image_event :: "event \<Rightarrow> bool" where
  "image_event (StateChanged st) =
     (st = FlashingState_erasing \<or> (\<exists>p. st = FlashingState_flashing p))"
| "image_event (Finished b) = False"
| "image_event (Write bs) =
     (written_command bs = Some (opcode FlashBegin) \<or> written_command bs = Some (opcode FlashData))"
| "image_event (CancelCheck here b) =
     (here = ImageLoop \<or> here = BlockLoop \<or> here = WaitPoll FlashBegin \<or>
      here = WaitPoll FlashData)"
| "image_event e = True"

fun finish_event :: "event \<Rightarrow> bool" where
  "finish_event (StateChanged st) =
     (st = FlashingState_verifying \<or> st = FlashingState_restarting \<or>
      st = FlashingState_complete)"
| "finish_event (Finished b) = b"
| "finish_event (Write bs) = (written_command bs = Some (opcode FlashEnd))"
| "finish_event (CancelCheck here b) = (here = WaitPoll FlashEnd)"
| "finish_event e = True"

fun catch_event :: "event \<Rightarrow> bool" where
  "catch_event (StateChanged st) =
     (state_type st = Error \<and>
      (errorType st = Cancelled \<or> errorType st = SyncFailed \<or> errorType st = ConnectionFailed))"
| "catch_event (Finished b) = (\<not> b)"
| "catch_event (Write bs) = False"
| "catch_event (CancelCheck here b) = (here = ErrorHandler)"
| "catch_event e = True"

text \<open>
  \<open>unseen m\<close>: when \<open>m\<close> returns normally, no look so far has seen the flag set.
  \<open>keeps_unseen m\<close>: when \<open>m\<close> returns normally from a state in which no look has seen
  the flag set, the same holds afterwards.
\<close>

definition unseen :: "'a M \<Rightarrow> bool" where
  "unseen m \<longleftrightarrow> (\<forall>s x s'. m s = (Inr x, s') \<longrightarrow> \<not> seen s')"

definition keeps_unseen :: "'a M \<Rightarrow> bool" where
  "keeps_unseen m \<longleftrightarrow> (\<forall>s x s'. m s = (Inr x, s') \<longrightarrow> \<not> seen s \<longrightarrow> \<not> seen s')"

definition flag_now :: "world \<Rightarrow> bool" where
  "flag_now s \<longleftrightarrow> (case cancel_at s of None \<Rightarrow> False | Some k \<Rightarrow> k \<le> tick s)"

definition catch_state :: "exn \<Rightarrow> bool \<Rightarrow> FlashingState" where
  "catch_state e c =
     (if c \<or> contains (what e) ''Cancelled'' then FlashingState_error Cancelled [] 0
      else if contains (what e) ''sync'' then FlashingState_error SyncFailed (what e) SYNC_RETRIES
      else FlashingState_error ConnectionFailed (what e) 0)"

fun is_check :: "event \<Rightarrow> bool" where
  "is_check (CancelCheck here c) = True"
| "is_check e = False"

fun is_write :: "event \<Rightarrow> bool" where
  "is_write (Write bs) = True"
| "is_write e = False"

text \<open>The finishing part up to the write of \<open>FLASH_END\<close>, and what follows the write.\<close>

definition finish_head :: "unit M" where
  "finish_head =
     steps [emit_stateChanged FlashingState_verifying,
            sleepMs 100,
            emit_stateChanged FlashingState_restarting,
            conn_write (encode (buildFlashEndCommand True))]"

definition finish_tail :: "SerialPort \<Rightarrow> unit M" where
  "finish_tail port =
     steps [try_catch
              (bindM (waitForResponse FlashEnd 2000) (\<lambda>response.
                 if \<not> isSuccess response \<and> \<not> True then throw (RuntimeError ''Flash end failed'')
                 else returnM ()))
              (\<lambda>e. if \<not> True then throw e else returnM ()),
            if True \<and> isESP32C3 port then hardReset else returnM (),
            sleepMs 1000,
            emit_stateChanged FlashingState_complete,
            cleanup,
            emit_finished True]"

definition catch_tail :: "exn \<Rightarrow> world \<Rightarrow> event list" where
  "catch_tail e s =
     (if fd_open s then [PortClose] else []) @
     [CancelCheck ErrorHandler (flag_now s), StateChanged (catch_state e (flag_now s)),
      Finished False]"

definition working_event :: "event \<Rightarrow> bool" where
  "working_event e \<longleftrightarrow> connect_event e \<or> image_event e"

subsection \<open>The blocks and the progress values of a run\<close>

text \<open>
  The events that tell which blocks were sent and which progress was reported: a
  \<open>Flashing\<close> state and the write of a \<open>FLASH_DATA\<close> frame.
\<close>

fun block_event :: "event \<Rightarrow> bool" where
  "block_event (StateChanged st) = (state_type st = Flashing)"
| "block_event (Write bs) = (written_command bs = Some (opcode FlashData))"
| "block_event e = False"

definition block_frame :: "FirmwareImage \<Rightarrow> int \<Rightarrow> QByteArray" where
  "block_frame img k = encode (buildFlashDataCommand (blockData img k) (word_of_int k))"

definition block_events :: "FirmwareImage \<Rightarrow> int \<Rightarrow> int \<Rightarrow> int \<Rightarrow> int \<Rightarrow> event list" where
  "block_events img totalBytes bytesFlashed numBlocks k =
     [StateChanged (FlashingState_flashing (overallProgress img totalBytes bytesFlashed numBlocks k)),
      Write (block_frame img k)]"

text \<open>
  A computation emits the block events \<open>ks\<close>: the block events among what it appends to the
  trace are a prefix of \<open>ks\<close>, and all of \<open>ks\<close> when it returns normally.
\<close>

definition emits :: "unit M \<Rightarrow> event list \<Rightarrow> bool" where
  "emits m ks \<longleftrightarrow>
     (\<forall>s r s'. m s = (r, s') \<longrightarrow>
        (\<exists>es. trace s' = trace s @ es \<and> prefix (filter block_event es) ks \<and>
              (r = Inr () \<longrightarrow> filter block_event es = ks)))"

fun expected_events :: "FirmwareFile \<Rightarrow> int \<Rightarrow> int \<Rightarrow> event list" where
  "expected_events [] totalBytes bytesFlashed = []"
| "expected_events (img # rest) totalBytes bytesFlashed =
     concat (map (block_events img totalBytes bytesFlashed (numBlocks_of img))
               [0..numBlocks_of img - 1])
     @ expected_events rest totalBytes (bytesFlashed + image_size img)"

text \<open>A slice padded to the block size.\<close>

definition pad :: "QByteArray \<Rightarrow> QByteArray" where
  "pad sl = sl @ replicate (1024 - length sl) 0xFF"

text \<open>The \<open>FLASH_DATA\<close> frames of one image and the progress values of a bundle, as the loops compute them.\<close>

definition image_frames :: "FirmwareImage \<Rightarrow> QByteArray list" where
  "image_frames img = map (block_frame img) [0..numBlocks_of img - 1]"

fun expected_progress :: "FirmwareFile \<Rightarrow> int \<Rightarrow> int \<Rightarrow> real list" where
  "expected_progress [] totalBytes bytesFlashed = []"
| "expected_progress (img # rest) totalBytes bytesFlashed =
     map (overallProgress img totalBytes bytesFlashed (numBlocks_of img))
       [0..numBlocks_of img - 1]
     @ expected_progress rest totalBytes (bytesFlashed + image_size img)"

subsection \<open>Concrete runs\<close>

text \<open>
  Inputs for runs that are evaluated below: a response frame of the loader that reports
  success for a command (two data bytes, status and error 0), a port behind a USB-UART
  bridge, an image of 8 bytes for the application offset, and two environments in which
  the loader answers every command and the other thread cancels: in the first the look at
  the top of the block loop is the first to see the flag set, in the second the look in
  the wait for the \<open>FLASH_END\<close> response.
\<close>

definition ok_response :: "ESP32Command \<Rightarrow> read_result" where
  "ok_response cmd = ReadBytes (encode [0x01, opcode cmd, 0x02, 0x00, 0, 0, 0, 0, 0x00, 0x00])"

definition uart_port :: SerialPort where
  "uart_port = \<lparr>port_id = ''ttyUSB0'', port_name = ''CP2102'', port_path = ''/dev/ttyUSB0'',
                 vendorId = 0x10C4, productId = 0xEA60\<rparr>"

definition small_firmware :: FirmwareFile where
  "small_firmware =
     [\<lparr>filePath = ''firmware.bin'',
       image_data = [0xE9, 0x01, 0x02, 0x03, 0x04, 0x05, 0x06, 0x07], offset = 0x10000\<rparr>]"

definition cancel_in_block_loop :: environment where
  "cancel_in_block_loop =
     \<lparr>env_opens = [], env_write_errs = [], env_baud_errs = [],
      env_reads = [[ok_response Sync], [], [], [], [], [], [], [],
                   [ok_response SpiAttach], [ok_response FlashBegin]],
      env_cancel_at = Some 4\<rparr>"

text \<open>
  An image of four blocks, the response frame of the loader that reports status 1 for a
  command, and an environment in which the loader accepts the blocks 0 to 2 and reports
  status 1 for block 3.
\<close>

definition four_block_firmware :: FirmwareFile where
  "four_block_firmware =
     [\<lparr>filePath = ''firmware.bin'', image_data = replicate 4000 0xE9, offset = 0x10000\<rparr>]"

definition failed_response :: "ESP32Command \<Rightarrow> read_result" where
  "failed_response cmd =
     ReadBytes (encode [0x01, opcode cmd, 0x02, 0x00, 0, 0, 0, 0, 0x01, 0x00])"

definition loader_rejects_block_3 :: environment where
  "loader_rejects_block_3 =
     \<lparr>env_opens = [], env_write_errs = [], env_baud_errs = [],
      env_reads = [[ok_response Sync], [], [], [], [], [], [], [],
                   [ok_response SpiAttach], [ok_response FlashBegin],
                   [ok_response FlashData], [ok_response FlashData], [ok_response FlashData],
                   [failed_response FlashData]],
      env_cancel_at = None\<rparr>"

definition cancel_in_flash_end_wait :: environment where
  "cancel_in_flash_end_wait =
     \<lparr>env_opens = [], env_write_errs = [], env_baud_errs = [],
      env_reads = [[ok_response Sync], [], [], [], [], [], [], [],
                   [ok_response SpiAttach], [ok_response FlashBegin], [ok_response FlashData],
                   [ReadBytes []]],
      env_cancel_at = Some 6\<rparr>"

text \<open>
  A bundle of two images, the first of two blocks (the second one padded), the second of
  one block, and an environment in which the loader accepts every command and nobody
  cancels.
\<close>

definition two_image_firmware :: FirmwareFile where
  "two_image_firmware =
     [\<lparr>filePath = ''bootloader.bin'', image_data = replicate 1500 0xE9, offset = 0x0\<rparr>,
      \<lparr>filePath = ''firmware.bin'',
       image_data = [0xE9, 0x01, 0x02, 0x03, 0x04, 0x05, 0x06, 0x07], offset = 0x10000\<rparr>]"

definition loader_accepts :: environment where
  "loader_accepts =
     \<lparr>env_opens = [], env_write_errs = [], env_baud_errs = [],
      env_reads = [[ok_response Sync], [], [], [], [], [], [], [],
                   [ok_response SpiAttach],
                   [ok_response FlashBegin], [ok_response FlashData], [ok_response FlashData],
                   [ok_response FlashBegin], [ok_response FlashData],
                   [ok_response FlashEnd]],
      env_cancel_at = None\<rparr>"

section \<open>The framing codec\<close>

lemmas slip_consts = FRAME_END_def FRAME_ESCAPE_def ESCAPED_END_def ESCAPED_ESCAPE_def

lemma encode_loop_concat:
  "encode_loop xs encoded = encoded @ concat (map encode_step xs)"
  by (induction xs arbitrary: encoded) simp_all

lemma encode_concat:
  "encode xs = FRAME_END # concat (map encode_step xs) @ [FRAME_END]"
  by (simp add: encode_def encode_loop_concat)


subsection \<open>One-shot decoding\<close>

text \<open>
  Inside a started frame and outside an escape, the escaped form of \<open>x\<close> is consumed
  whole and appends exactly \<open>x\<close> to \<open>decoded\<close>.
\<close>

lemma decode_loop_escaped:
  "decode_loop (concat (map encode_step x) @ rest) decoded False True
   = decode_loop rest (decoded @ x) False True"
  by (induction x arbitrary: decoded) (simp_all add: encode_step_def slip_consts)




lemma decode_encode: "decode (encode x) = x"
  by (simp add: decode_def encode_concat decode_loop_escaped)

text \<open>
  C3. The one-shot decoder inverts the encoder on every byte sequence, the empty one
  included, and the encoder produces the listed frames for the empty sequence, for a
  single \<open>0xC0\<close>, for a single \<open>0xDB\<close> and for the pair \<open>0xC0 0xDB\<close>.
\<close>

theorem decode_encode_roundtrip:
  "decode (encode x) = x \<and>
   encode [] = [0xC0, 0xC0] \<and>
   encode [0xC0] = [0xC0, 0xDB, 0xDC, 0xC0] \<and>
   encode [0xDB] = [0xC0, 0xDB, 0xDD, 0xC0] \<and>
   encode [0xC0, 0xDB] = [0xC0, 0xDB, 0xDC, 0xDB, 0xDD, 0xC0]"
proof -
  have "decode (encode x) = x"
    by (rule decode_encode)
  moreover have "encode [] = [0xC0, 0xC0]"
    by (simp add: encode_def slip_consts)
  moreover have "encode [0xC0] = [0xC0, 0xDB, 0xDC, 0xC0]"
    by (simp add: encode_def encode_step_def slip_consts)
  moreover have "encode [0xDB] = [0xC0, 0xDB, 0xDD, 0xC0]"
    by (simp add: encode_def encode_step_def slip_consts)
  moreover have "encode [0xC0, 0xDB] = [0xC0, 0xDB, 0xDC, 0xDB, 0xDD, 0xC0]"
    by (simp add: encode_def encode_step_def slip_consts)
  ultimately show ?thesis by blast
qed



subsection \<open>Streaming decoding\<close>

lemma process_loop_escaped:
  "process_loop (concat (map encode_step x) @ rest) packets
     \<lparr>m_buffer = buf, m_inEscape = False, m_packetStarted = True\<rparr>
   = process_loop rest packets
     \<lparr>m_buffer = buf @ x, m_inEscape = False, m_packetStarted = True\<rparr>"
  by (induction x arbitrary: buf) (simp_all add: encode_step_def processByte_def slip_consts)

lemma reset_init: "reset d = SLIPDecoder_init"
  by (simp add: reset_def SLIPDecoder_init_def)

lemma process_encode:
  "process (encode x) SLIPDecoder_init =
     (if x = [] then ([], \<lparr>m_buffer = [], m_inEscape = False, m_packetStarted = True\<rparr>)
      else ([x], SLIPDecoder_init))"
  by (simp add: process_def encode_concat SLIPDecoder_init_def processByte_def
      process_loop_escaped reset_def)

text \<open>
  C2, as the code has it. Feeding the encoding of a non-empty \<open>x\<close> byte by byte into a
  freshly reset streaming decoder yields exactly one frame, equal to \<open>x\<close>, and leaves the
  decoder reset. For the empty sequence the encoding is two delimiters, which the decoder
  collapses: no frame is yielded, since \<open>processByte\<close> completes a packet only when the
  buffer is not empty.
\<close>

theorem streaming_decode_encode:
  "fst (process (encode x) (reset d)) = (if x = [] then [] else [x])"
  by (simp add: reset_init process_encode)

theorem streaming_decode_encode_witness:
  "fst (process (encode [0xC0, 0x01, 0xDB]) (reset SLIPDecoder_init)) = [[0xC0, 0x01, 0xDB]]"
  using streaming_decode_encode [of "[0xC0, 0x01, 0xDB]" SLIPDecoder_init] by simp

text \<open>
  The claim as stated includes the empty sequence; there the decoder yields no frame at
  all rather than one empty frame.
\<close>

theorem streaming_decode_empty_counterexample:
  "fst (process (encode []) (reset SLIPDecoder_init)) = [] \<and>
   fst (process (encode []) (reset SLIPDecoder_init)) \<noteq> [[]]"
  by (simp add: reset_init process_encode)

section \<open>Response parsing\<close>

lemma uint_byte_lt: "uint (a :: byte) < 256"
  using uint_bounded [of a] by simp

lemma le16_uint:
  "uint ((ucast (a::byte) :: 16 word) OR push_bit 8 (ucast (b::byte))) = uint a + 256 * uint b"
proof -
  have "(ucast a :: 16 word) AND push_bit 8 (ucast b) = 0"
    by (rule bit_word_eqI) (auto simp add: bit_simps dest: bit_imp_le_length)
  then have "(ucast a :: 16 word) OR push_bit 8 (ucast b) = ucast a + push_bit 8 (ucast b)"
    by (simp add: disjunctive_add_eq_or)
  moreover have "uint (ucast a + push_bit 8 (ucast b) :: 16 word) = uint a + 256 * uint b"
    using uint_byte_lt [of a] uint_byte_lt [of b]
    by (simp add: uint_word_ariths push_bit_eq_mult uint_up_ucast is_up take_bit_eq_mod)
  ultimately show ?thesis by simp
qed

lemma le32_uint:
  "uint ((ucast (a::byte) :: 32 word) OR push_bit 8 (ucast (b::byte)) OR
         push_bit 16 (ucast (c::byte)) OR push_bit 24 (ucast (d::byte)))
   = uint a + 256 * uint b + 65536 * uint c + 16777216 * uint d"
proof -
  have 1: "(ucast a :: 32 word) AND
           (push_bit 8 (ucast b) OR push_bit 16 (ucast c) OR push_bit 24 (ucast d)) = 0"
    by (rule bit_word_eqI) (auto simp add: bit_simps dest: bit_imp_le_length)
  have 2: "(push_bit 8 (ucast b) :: 32 word) AND
           (push_bit 16 (ucast c) OR push_bit 24 (ucast d)) = 0"
    by (rule bit_word_eqI) (auto simp add: bit_simps dest: bit_imp_le_length)
  have 3: "(push_bit 16 (ucast c) :: 32 word) AND push_bit 24 (ucast d) = 0"
    by (rule bit_word_eqI) (auto simp add: bit_simps dest: bit_imp_le_length)
  have "(ucast a :: 32 word) OR push_bit 8 (ucast b) OR push_bit 16 (ucast c) OR
          push_bit 24 (ucast d)
        = ucast a + (push_bit 8 (ucast b) + (push_bit 16 (ucast c) + push_bit 24 (ucast d)))"
    using 1 2 3 by (simp add: disjunctive_add_eq_or)
  moreover have
    "uint (ucast a + (push_bit 8 (ucast b) + (push_bit 16 (ucast c) + push_bit 24 (ucast d)))
            :: 32 word)
     = uint a + 256 * uint b + 65536 * uint c + 16777216 * uint d"
    using uint_byte_lt [of a] uint_byte_lt [of b] uint_byte_lt [of c] uint_byte_lt [of d]
    by (simp add: uint_word_ariths push_bit_eq_mult uint_up_ucast is_up take_bit_eq_mod)
  ultimately show ?thesis by simp
qed

lemma data_len_arith:
  "0 \<le> w \<Longrightarrow> 8 < n \<Longrightarrow> nat (min (8 + w) (int n) - 8) = min (nat w) (n - 8)"
  by (simp add: min_def) linarith

text \<open>What \<open>parse\<close> returns on every packet that passes its two checks.\<close>

lemma parse_header:
  assumes "8 \<le> length p" and "p ! 0 = 1"
  shows "parse p = Some \<lparr>direction = 1, command = p ! 1, rsp_size = readLE16 p 2,
           rsp_value = readLE32 p 4,
           rsp_data = take (unat (readLE16 p 2)) (drop 8 p),
           status = (if take (unat (readLE16 p 2)) (drop 8 p) = [] then 0 else p ! 8),
           error = (if length (take (unat (readLE16 p 2)) (drop 8 p)) < 2 then 0 else p ! 9)\<rparr>"
proof -
  define d where "d = take (unat (readLE16 p 2)) (drop 8 p)"
  have m: "mid p 8 (min (8 + uint (readLE16 p 2)) (int (length p)) - 8) = d" if "8 < length p"
  proof -
    have "nat (min (8 + uint (readLE16 p 2)) (int (length p)) - 8)
          = min (unat (readLE16 p 2)) (length p - 8)"
      using data_len_arith [of "uint (readLE16 p 2)" "length p"] that by simp
    moreover have "take (min (unat (readLE16 p 2)) (length p - 8)) (drop 8 p) = d"
      by (simp add: min_def d_def)
    moreover have "\<not> min (8 + uint (readLE16 p 2)) (int (length p)) < 8"
      using that by (simp add: min_def)
    ultimately show ?thesis by (simp add: mid_def)
  qed
  have s: "d ! 0 = p ! 8" if "d \<noteq> []"
    using that assms by (cases "unat (readLE16 p 2)") (auto simp add: d_def)
  have e: "d ! 1 = p ! 9" if "\<not> length d < 2"
    using that assms by (simp add: d_def)
  have n: "d = []" if "length p = 8"
    using that by (simp add: d_def)
  have "parse p = Some \<lparr>direction = 1, command = p ! 1, rsp_size = readLE16 p 2,
           rsp_value = readLE32 p 4, rsp_data = d,
           status = (if d = [] then 0 else p ! 8),
           error = (if length d < 2 then 0 else p ! 9)\<rparr>"
  proof (cases "8 < length p")
    case True
    then show ?thesis using assms s e
      by (simp add: parse_def Let_def m [OF True] Suc_le_eq)
  next
    case False
    with assms have "length p = 8" by simp
    then show ?thesis using assms n by (simp add: parse_def Let_def)
  qed
  then show ?thesis by (simp add: d_def)
qed

lemma parse_not_response: "take 1 q \<noteq> [0x01] \<Longrightarrow> parse q = None"
  by (cases q) (simp_all add: parse_def)

text \<open>
  C4. Every frame of at least 8 bytes whose first byte is \<open>0x01\<close> parses; the opcode is
  byte 1, the size is bytes 2-3 and the value bytes 4-7, both little-endian; the data are
  the bytes from offset 8 on, at most as many as the size field says; the status is the
  first data byte and the error the second (each 0 when the data do not reach that far);
  \<open>isSuccess\<close> holds exactly when both are 0. The frame
  \<open>01 08 04 00 AA BB CC DD 00 00\<close> parses as opcode \<open>0x08\<close>, size 4, value
  \<open>0xDDCCBBAA\<close>, success; with \<open>05\<close> as second data byte the error is 5 and the
  response is not a success. A frame that does not start with \<open>0x01\<close> does not parse.
\<close>

theorem parse_response:
  "(8 \<le> length p \<and> p ! 0 = 0x01 \<longrightarrow>
      (\<exists>r. parse p = Some r \<and>
           command r = p ! 1 \<and>
           uint (rsp_size r) = uint (p ! 2) + 256 * uint (p ! 3) \<and>
           uint (rsp_value r) =
             uint (p ! 4) + 256 * uint (p ! 5) + 65536 * uint (p ! 6) + 16777216 * uint (p ! 7) \<and>
           rsp_data r = take (unat (rsp_size r)) (drop 8 p) \<and>
           status r = (if rsp_data r = [] then 0 else rsp_data r ! 0) \<and>
           error r = (if length (rsp_data r) < 2 then 0 else rsp_data r ! 1) \<and>
           (isSuccess r \<longleftrightarrow> status r = 0 \<and> error r = 0))) \<and>
   parse [0x01, 0x08, 0x04, 0x00, 0xAA, 0xBB, 0xCC, 0xDD, 0x00, 0x00] =
     Some \<lparr>direction = 0x01, command = 0x08, rsp_size = 4, rsp_value = 0xDDCCBBAA,
            rsp_data = [0x00, 0x00], status = 0, error = 0\<rparr> \<and>
   isSuccess \<lparr>direction = 0x01, command = 0x08, rsp_size = 4, rsp_value = 0xDDCCBBAA,
            rsp_data = [0x00, 0x00], status = 0, error = 0\<rparr> \<and>
   parse [0x01, 0x08, 0x04, 0x00, 0xAA, 0xBB, 0xCC, 0xDD, 0x00, 0x05] =
     Some \<lparr>direction = 0x01, command = 0x08, rsp_size = 4, rsp_value = 0xDDCCBBAA,
            rsp_data = [0x00, 0x05], status = 0, error = 5\<rparr> \<and>
   \<not> isSuccess \<lparr>direction = 0x01, command = 0x08, rsp_size = 4, rsp_value = 0xDDCCBBAA,
            rsp_data = [0x00, 0x05], status = 0, error = 5\<rparr> \<and>
   (take 1 q \<noteq> [0x01] \<longrightarrow> parse q = None)"
proof (intro conjI impI)
  assume a: "8 \<le> length p \<and> p ! 0 = 0x01"
  let ?d = "take (unat (readLE16 p 2)) (drop 8 p)"
  have s: "?d ! 0 = p ! 8" if "?d \<noteq> []"
    using that a by (cases "unat (readLE16 p 2)") auto
  have e: "?d ! 1 = p ! 9" if "\<not> length ?d < 2"
    using that a by simp
  from a have "parse p = Some \<lparr>direction = 1, command = p ! 1, rsp_size = readLE16 p 2,
           rsp_value = readLE32 p 4, rsp_data = ?d,
           status = (if ?d = [] then 0 else p ! 8),
           error = (if length ?d < 2 then 0 else p ! 9)\<rparr>"
    by (simp add: parse_header)
  moreover have "uint (readLE16 p 2) = uint (p ! 2) + 256 * uint (p ! 3)"
    by (simp add: readLE16_def le16_uint)
  moreover have "uint (readLE32 p 4) =
      uint (p ! 4) + 256 * uint (p ! 5) + 65536 * uint (p ! 6) + 16777216 * uint (p ! 7)"
    using le32_uint [of "p ! 4" "p ! 5" "p ! 6" "p ! 7"] by (simp add: readLE32_def)
  ultimately show "\<exists>r. parse p = Some r \<and>
           command r = p ! 1 \<and>
           uint (rsp_size r) = uint (p ! 2) + 256 * uint (p ! 3) \<and>
           uint (rsp_value r) =
             uint (p ! 4) + 256 * uint (p ! 5) + 65536 * uint (p ! 6) + 16777216 * uint (p ! 7) \<and>
           rsp_data r = take (unat (rsp_size r)) (drop 8 p) \<and>
           status r = (if rsp_data r = [] then 0 else rsp_data r ! 0) \<and>
           error r = (if length (rsp_data r) < 2 then 0 else rsp_data r ! 1) \<and>
           (isSuccess r \<longleftrightarrow> status r = 0 \<and> error r = 0)"
    using s e by (simp add: isSuccess_def del: take_eq_Nil)
next
  assume "take 1 q \<noteq> [0x01]"
  then show "parse q = None" by (rule parse_not_response)
qed (simp_all add: parse_def readLE16_def readLE32_def mid_def isSuccess_def)



theorem parse_response_witness:
  "(\<exists>r. parse [0x01, 0x03, 0x02, 0x00, 0x78, 0x56, 0x34, 0x12, 0x01, 0x06, 0x99] = Some r \<and>
        command r = 0x03 \<and> uint (rsp_size r) = 2 \<and> uint (rsp_value r) = 0x12345678 \<and>
        rsp_data r = [0x01, 0x06] \<and> status r = 0x01 \<and> error r = 0x06 \<and> \<not> isSuccess r) \<and>
   parse [0x00, 0x08, 0x04, 0x00, 0xAA, 0xBB, 0xCC, 0xDD, 0x00, 0x00] = None"
proof -
  let ?p = "[0x01, 0x03, 0x02, 0x00, 0x78, 0x56, 0x34, 0x12, 0x01, 0x06, 0x99] :: QByteArray"
  let ?q = "[0x00, 0x08, 0x04, 0x00, 0xAA, 0xBB, 0xCC, 0xDD, 0x00, 0x00] :: QByteArray"
  note t = parse_response [of ?p ?q]
  have "8 \<le> length ?p \<and> ?p ! 0 = 0x01" by simp
  with t obtain r where r: "parse ?p = Some r" "command r = ?p ! 1"
      "uint (rsp_size r) = uint (?p ! 2) + 256 * uint (?p ! 3)"
      "uint (rsp_value r) =
         uint (?p ! 4) + 256 * uint (?p ! 5) + 65536 * uint (?p ! 6) + 16777216 * uint (?p ! 7)"
      "rsp_data r = take (unat (rsp_size r)) (drop 8 ?p)"
      "status r = (if rsp_data r = [] then 0 else rsp_data r ! 0)"
      "error r = (if length (rsp_data r) < 2 then 0 else rsp_data r ! 1)"
      "isSuccess r \<longleftrightarrow> status r = 0 \<and> error r = 0"
    by blast
  from r(3) have sz: "uint (rsp_size r) = 2" by simp
  then have "unat (rsp_size r) = 2" by (simp add: unat_eq_nat_uint)
  with r(5) have d: "rsp_data r = [0x01, 0x06]" by (simp add: numeral_2_eq_2)
  from r(4) have v: "uint (rsp_value r) = 0x12345678" by simp
  from d r(6) have st: "status r = 0x01" by simp
  from d r(7) have er: "error r = 0x06" by simp
  from st r(8) have "\<not> isSuccess r" by simp
  moreover from r(2) have "command r = 0x03" by simp
  moreover have "take 1 ?q \<noteq> [0x01]" by simp
  with t have "parse ?q = None" by blast
  ultimately show ?thesis using r(1) sz v d st er by blast
qed

text \<open>
  C9. A frame of exactly 8 bytes starting with \<open>0x01\<close> parses whatever size its header
  declares: there are no data bytes, status and error default to 0, and \<open>isSuccess\<close>
  holds.
\<close>

theorem parse_header_only_defaults_to_success:
  "length p = 8 \<and> p ! 0 = 0x01 \<longrightarrow>
     (\<exists>r. parse p = Some r \<and>
          uint (rsp_size r) = uint (p ! 2) + 256 * uint (p ! 3) \<and>
          rsp_data r = [] \<and> status r = 0 \<and> error r = 0 \<and> isSuccess r)"
proof
  assume a: "length p = 8 \<and> p ! 0 = 0x01"
  then have "parse p = Some \<lparr>direction = 1, command = p ! 1, rsp_size = readLE16 p 2,
           rsp_value = readLE32 p 4, rsp_data = [], status = 0, error = 0\<rparr>"
    using parse_header [of p] by simp
  moreover have "uint (readLE16 p 2) = uint (p ! 2) + 256 * uint (p ! 3)"
    by (simp add: readLE16_def le16_uint)
  ultimately show "\<exists>r. parse p = Some r \<and>
          uint (rsp_size r) = uint (p ! 2) + 256 * uint (p ! 3) \<and>
          rsp_data r = [] \<and> status r = 0 \<and> error r = 0 \<and> isSuccess r"
    by (simp add: isSuccess_def)
qed

theorem parse_header_only_defaults_to_success_witness:
  "\<exists>r. parse [0x01, 0x03, 0xFF, 0xFF, 0x00, 0x00, 0x00, 0x00] = Some r \<and>
       uint (rsp_size r) = 65535 \<and> rsp_data r = [] \<and> status r = 0 \<and> error r = 0 \<and> isSuccess r"
  using parse_header_only_defaults_to_success [of "[0x01, 0x03, 0xFF, 0xFF, 0x00, 0x00, 0x00, 0x00]"]
  by simp

section \<open>Offset inference of the single-file constructor\<close>

lemma starts_with_iff: "starts_with s p \<longleftrightarrow> (\<exists>suf. s = p @ suf)"
  by (induction s p rule: starts_with.induct) auto

lemma contains_iff: "contains s sub \<longleftrightarrow> (\<exists>pre suf. s = pre @ sub @ suf)"
proof (induction s)
  case Nil
  then show ?case by auto
next
  case (Cons c cs)
  have "(\<exists>pre suf. c # cs = pre @ sub @ suf) \<longleftrightarrow>
        (\<exists>suf. c # cs = sub @ suf) \<or> (\<exists>pre suf. cs = pre @ sub @ suf)"
  proof
    assume "\<exists>pre suf. c # cs = pre @ sub @ suf"
    then obtain pre suf where e: "c # cs = pre @ sub @ suf" by blast
    show "(\<exists>suf. c # cs = sub @ suf) \<or> (\<exists>pre suf. cs = pre @ sub @ suf)"
    proof (cases pre)
      case Nil
      with e show ?thesis by auto
    next
      case (Cons a pre')
      with e have "cs = pre' @ sub @ suf" by simp
      then show ?thesis by blast
    qed
  next
    assume "(\<exists>suf. c # cs = sub @ suf) \<or> (\<exists>pre suf. cs = pre @ sub @ suf)"
    then show "\<exists>pre suf. c # cs = pre @ sub @ suf"
    proof
      assume "\<exists>suf. c # cs = sub @ suf"
      then obtain suf where "c # cs = [] @ sub @ suf" by auto
      then show ?thesis by blast
    next
      assume "\<exists>pre suf. cs = pre @ sub @ suf"
      then obtain pre suf where "c # cs = (c # pre) @ sub @ suf" by auto
      then show ?thesis by blast
    qed
  qed
  with Cons show ?case by (simp add: starts_with_iff)
qed

text \<open>
  C6. The single-file constructor builds one image with the given path and payload; its
  offset is \<open>0x0000\<close> exactly when the lower-cased file name (the path after its last
  slash) contains one of \<open>merged\<close>, \<open>factory\<close>, \<open>combined\<close>, \<open>full\<close> as a
  contiguous substring, and \<open>0x10000\<close> otherwise. The four named files get the listed
  offsets.
\<close>

theorem single_file_offset:
  "FirmwareFile_single path d =
     [\<lparr>filePath = path, image_data = d,
       offset = (if (\<exists>pre suf. toLower (QFileInfo_fileName path) = pre @ ''merged'' @ suf) \<or>
                    (\<exists>pre suf. toLower (QFileInfo_fileName path) = pre @ ''factory'' @ suf) \<or>
                    (\<exists>pre suf. toLower (QFileInfo_fileName path) = pre @ ''combined'' @ suf) \<or>
                    (\<exists>pre suf. toLower (QFileInfo_fileName path) = pre @ ''full'' @ suf)
                 then 0x0000 else 0x10000)\<rparr>] \<and>
   FirmwareFile_single ''firmware.bin'' d =
     [\<lparr>filePath = ''firmware.bin'', image_data = d, offset = 0x10000\<rparr>] \<and>
   FirmwareFile_single ''FACTORY.BIN'' d =
     [\<lparr>filePath = ''FACTORY.BIN'', image_data = d, offset = 0x0000\<rparr>] \<and>
   FirmwareFile_single ''esp32-merged.bin'' d =
     [\<lparr>filePath = ''esp32-merged.bin'', image_data = d, offset = 0x0000\<rparr>] \<and>
   FirmwareFile_single ''factory-something.bin'' d =
     [\<lparr>filePath = ''factory-something.bin'', image_data = d, offset = 0x0000\<rparr>]"
proof -
  have low: "toLower ''FACTORY.BIN'' = ''factory.bin''"
    by code_simp
  have "isMergedBinary ''FACTORY.BIN''"
    by (simp add: isMergedBinary_def QFileInfo_fileName_def low)
  moreover have "\<not> isMergedBinary ''firmware.bin''"
    by (simp add: isMergedBinary_def QFileInfo_fileName_def toLower_def toLower_char_def)
  moreover have "isMergedBinary ''esp32-merged.bin''"
    by (simp add: isMergedBinary_def QFileInfo_fileName_def toLower_def toLower_char_def)
  moreover have "isMergedBinary ''factory-something.bin''"
    by (simp add: isMergedBinary_def QFileInfo_fileName_def toLower_def toLower_char_def)
  moreover have "FirmwareFile_single path d =
     [\<lparr>filePath = path, image_data = d,
       offset = (if (\<exists>pre suf. toLower (QFileInfo_fileName path) = pre @ ''merged'' @ suf) \<or>
                    (\<exists>pre suf. toLower (QFileInfo_fileName path) = pre @ ''factory'' @ suf) \<or>
                    (\<exists>pre suf. toLower (QFileInfo_fileName path) = pre @ ''combined'' @ suf) \<or>
                    (\<exists>pre suf. toLower (QFileInfo_fileName path) = pre @ ''full'' @ suf)
                 then 0x0000 else 0x10000)\<rparr>]"
    unfolding FirmwareFile_single_def isMergedBinary_def Let_def contains_iff by simp
  ultimately show ?thesis
    by (simp add: FirmwareFile_single_def)
qed

section \<open>Reasoning about runs\<close>

subsection \<open>The computation combinators\<close>

lemma returnM_apply: "returnM x s = (Inr x, s)"
  by (simp add: returnM_def)

lemma throw_apply: "throw e s = (Inl e, s)"
  by (simp add: throw_def)

lemma log_apply [simp]: "log e s = (Inr (), s\<lparr>trace := trace s @ [e]\<rparr>)"
  by (simp add: log_def)

lemma bindM_Inr:
  "bindM m f s = (Inr y, s') \<longleftrightarrow> (\<exists>x s1. m s = (Inr x, s1) \<and> f x s1 = (Inr y, s'))"
  by (auto simp add: bindM_def split: prod.splits sum.splits)

lemma bindM_Inl:
  "bindM m f s = (Inl e, s') \<longleftrightarrow>
     m s = (Inl e, s') \<or> (\<exists>x s1. m s = (Inr x, s1) \<and> f x s1 = (Inl e, s'))"
  by (auto simp add: bindM_def split: prod.splits sum.splits)

lemma steps_Cons_Inr:
  "steps (m # ms) s = (Inr u, s') \<longleftrightarrow> (\<exists>s1. m s = (Inr (), s1) \<and> steps ms s1 = (Inr u, s'))"
  by (simp add: bindM_Inr)

lemma steps_Cons_Inl:
  "steps (m # ms) s = (Inl e, s') \<longleftrightarrow>
     m s = (Inl e, s') \<or> (\<exists>s1. m s = (Inr (), s1) \<and> steps ms s1 = (Inl e, s'))"
  by (simp add: bindM_Inl)

lemma steps_append:
  "steps (ms @ ns) = bindM (steps ms) (\<lambda>_. steps ns)"
proof (induction ms)
  case Nil
  show ?case by (rule ext) (simp add: bindM_def returnM_def)
next
  case (Cons m ms)
  show ?case
    by (rule ext) (simp add: Cons bindM_def split: prod.splits sum.splits)
qed

subsection \<open>What every computation of the worker respects\<close>

lemma seen_mono: "cancel_at s' = cancel_at s \<Longrightarrow> tick s \<le> tick s' \<Longrightarrow> seen s \<Longrightarrow> seen s'"
  by (auto simp add: seen_def split: option.splits)

lemma saw_cancel_append [simp]: "saw_cancel (xs @ ys) \<longleftrightarrow> saw_cancel xs \<or> saw_cancel ys"
  by (auto simp add: saw_cancel_def)

lemma saw_cancel_Nil [simp]: "\<not> saw_cancel []"
  by (simp add: saw_cancel_def)

lemma extends_refl [simp]: "extends P s s"
  by (simp add: extends_def)

lemma extends_trans:
  assumes "extends P s s1" and "extends P s1 s2"
  shows "extends P s s2"
proof -
  from assms(1) obtain es1 where 1: "cancel_at s1 = cancel_at s" "tick s \<le> tick s1"
      "trace s1 = trace s @ es1" "list_all P es1" "saw_cancel es1 \<longrightarrow> seen s1"
    unfolding extends_def by blast
  from assms(2) obtain es2 where 2: "cancel_at s2 = cancel_at s1" "tick s1 \<le> tick s2"
      "trace s2 = trace s1 @ es2" "list_all P es2" "saw_cancel es2 \<longrightarrow> seen s2"
    unfolding extends_def by blast
  have "saw_cancel (es1 @ es2) \<longrightarrow> seen s2"
    using 1(5) 2(1,2,5) seen_mono [of s2 s1] by auto
  moreover have "trace s2 = trace s @ es1 @ es2 \<and> list_all P (es1 @ es2)"
    using 1 2 by simp
  ultimately show ?thesis
    unfolding extends_def using 1(1,2) 2(1,2) by (metis le_trans)
qed

lemma extends_weaken: "extends P s s' \<Longrightarrow> (\<And>e. P e \<Longrightarrow> Q e) \<Longrightarrow> extends Q s s'"
  unfolding extends_def by (auto simp add: list_all_iff)

lemma extends_seen: "extends P s s' \<Longrightarrow> seen s \<Longrightarrow> seen s'"
  unfolding extends_def by (auto intro: seen_mono)

lemma obeysD: "obeys P m \<Longrightarrow> m s = (r, s') \<Longrightarrow> extends P s s'"
  by (auto simp add: obeys_def)

lemma obeysI: "(\<And>s r s'. m s = (r, s') \<Longrightarrow> extends P s s') \<Longrightarrow> obeys P m"
  by (auto simp add: obeys_def)

lemma obeys_weaken: "obeys P m \<Longrightarrow> (\<And>e. P e \<Longrightarrow> Q e) \<Longrightarrow> obeys Q m"
  unfolding obeys_def using extends_weaken by blast

named_theorems obeys_intros

lemma obeys_returnM [obeys_intros]: "obeys P (returnM x)"
  by (rule obeysI) (auto simp add: returnM_def)

lemma obeys_throw [obeys_intros]: "obeys P (throw e)"
  by (rule obeysI) (auto simp add: throw_def)

lemma obeys_bindM [obeys_intros]:
  "obeys P m \<Longrightarrow> (\<And>x. obeys P (f x)) \<Longrightarrow> obeys P (bindM m f)"
  by (rule obeysI)
     (auto simp add: bindM_def split: prod.splits sum.splits dest: obeysD intro: extends_trans)

lemma obeys_try_catch [obeys_intros]:
  "obeys P m \<Longrightarrow> (\<And>e. obeys P (h e)) \<Longrightarrow> obeys P (try_catch m h)"
  by (rule obeysI)
     (auto simp add: try_catch_def split: prod.splits sum.splits dest: obeysD intro: extends_trans)

lemma obeys_steps_Nil [obeys_intros]: "obeys P (steps [])"
  by (simp add: obeys_returnM)

lemma obeys_steps_Cons [obeys_intros]:
  "obeys P m \<Longrightarrow> obeys P (steps ms) \<Longrightarrow> obeys P (steps (m # ms))"
  by (simp add: obeys_bindM)

lemma obeys_steps_append [obeys_intros]:
  "obeys P (steps ms) \<Longrightarrow> obeys P (steps ns) \<Longrightarrow> obeys P (steps (ms @ ns))"
  by (simp add: steps_append obeys_bindM)

lemma obeys_steps_replicate [obeys_intros]:
  "obeys P m \<Longrightarrow> obeys P (steps (replicate n m))"
  by (induction n) (simp_all add: obeys_intros)

lemma obeys_if [obeys_intros]:
  "(c \<Longrightarrow> obeys P m) \<Longrightarrow> (\<not> c \<Longrightarrow> obeys P m') \<Longrightarrow> obeys P (if c then m else m')"
  by simp

lemma obeys_if_state [obeys_intros]:
  "obeys P m \<Longrightarrow> obeys P m' \<Longrightarrow> obeys P (\<lambda>s. if c s then m s else m' s)"
  by (rule obeysI) (auto split: if_splits dest: obeysD)

lemma obeys_let [obeys_intros]: "obeys P (f v) \<Longrightarrow> obeys P (let x = v in f x)"
  by simp

lemma obeys_log: "P e \<Longrightarrow> (\<And>here. e \<noteq> CancelCheck here True) \<Longrightarrow> obeys P (log e)"
  by (rule obeysI) (auto simp add: extends_def saw_cancel_def)

text \<open>Assignments to the fields that are neither trace nor flag.\<close>

lemma obeys_set_syncSucceeded [obeys_intros]:
  "obeys P (\<lambda>s. (Inr (), s\<lparr>syncSucceeded := b\<rparr>))"
  by (rule obeysI) (auto simp add: extends_def)

lemma obeys_set_opened [obeys_intros]:
  "obeys P (\<lambda>s. (Inr (), s\<lparr>opened := b\<rparr>))"
  by (rule obeysI) (auto simp add: extends_def)

lemma obeys_set_isFlashing [obeys_intros]:
  "obeys P (\<lambda>s. (Inr (), s\<lparr>m_isFlashing := b\<rparr>))"
  by (rule obeysI) (auto simp add: extends_def)

lemma obeys_emit_stateChanged [obeys_intros]:
  "P (StateChanged st) \<Longrightarrow> obeys P (emit_stateChanged st)"
  by (simp add: emit_stateChanged_def obeys_log)

lemma obeys_emit_finished [obeys_intros]: "P (Finished b) \<Longrightarrow> obeys P (emit_finished b)"
  by (simp add: emit_finished_def obeys_log)

lemma obeys_sleepMs [obeys_intros]: "P (Sleep ms) \<Longrightarrow> obeys P (sleepMs ms)"
  by (simp add: sleepMs_def obeys_log)

lemma obeys_isCancelled [obeys_intros]:
  assumes "P (CancelCheck here True)" and "P (CancelCheck here False)"
  shows "obeys P (isCancelled here)"
proof (rule obeysI)
  fix s r s'
  assume a: "isCancelled here s = (r, s')"
  define c where "c = (case cancel_at s of None \<Rightarrow> False | Some k \<Rightarrow> k \<le> tick s)"
  from a have s': "s' = s\<lparr>tick := tick s + 1, trace := trace s @ [CancelCheck here c]\<rparr>"
    by (auto simp add: isCancelled_def Let_def c_def)
  have "P (CancelCheck here c)" using assms by (cases c) simp_all
  moreover have "saw_cancel [CancelCheck here c] \<longrightarrow> seen s'"
    by (auto simp add: saw_cancel_def seen_def s' c_def split: option.splits)
  ultimately show "extends P s s'"
    unfolding extends_def by (simp add: s')
qed

lemma obeys_conn_open [obeys_intros]:
  "P (PortOpen True) \<Longrightarrow> P (PortOpen False) \<Longrightarrow> P Flush \<Longrightarrow> obeys P (conn_open path)"
  by (rule obeysI)
     (auto simp add: conn_open_def extends_def saw_cancel_def split: list.splits option.splits)

lemma obeys_conn_close [obeys_intros]: "P PortClose \<Longrightarrow> obeys P conn_close"
  by (rule obeysI) (auto simp add: conn_close_def extends_def saw_cancel_def split: if_splits)

lemma obeys_conn_flush [obeys_intros]: "P Flush \<Longrightarrow> obeys P conn_flush"
  by (rule obeysI) (auto simp add: conn_flush_def extends_def saw_cancel_def split: if_splits)

lemma obeys_conn_setBaudRate [obeys_intros]:
  "P (SetBaud rate) \<Longrightarrow> P Flush \<Longrightarrow> obeys P (conn_setBaudRate rate)"
  by (rule obeysI)
     (auto simp add: conn_setBaudRate_def extends_def saw_cancel_def
           split: if_splits list.splits bool.splits)

lemma obeys_conn_write [obeys_intros]: "P (Write bs) \<Longrightarrow> obeys P (conn_write bs)"
  by (rule obeysI)
     (auto simp add: conn_write_def extends_def saw_cancel_def
           split: if_splits list.splits option.splits)

lemma obeys_conn_read [obeys_intros]: "obeys P (conn_read outcome)"
  by (rule obeysI) (auto simp add: conn_read_def split: if_splits read_result.splits)

lemma obeys_setDTR [obeys_intros]: "P (DTR v) \<Longrightarrow> obeys P (setDTR v)"
  by (rule obeysI) (auto simp add: setDTR_def extends_def saw_cancel_def split: if_splits)

lemma obeys_setRTS [obeys_intros]: "P (RTS v) \<Longrightarrow> obeys P (setRTS v)"
  by (rule obeysI) (auto simp add: setRTS_def extends_def saw_cancel_def split: if_splits)

lemma obeys_setDTRRTS [obeys_intros]: "P (DTR d) \<Longrightarrow> P (RTS r) \<Longrightarrow> obeys P (setDTRRTS d r)"
  by (rule obeysI) (auto simp add: setDTRRTS_def extends_def saw_cancel_def split: if_splits)

subsection \<open>The frames the worker writes and the states it emits\<close>

lemma buildPacket_Cons:
  "buildPacket cmd payload ck =
     0x00 # opcode cmd #
       (appendLE32 (appendLE16 [] (word_of_int (int (length payload)))) ck @ payload)"
  by (simp add: buildPacket_def appendLE16_def appendLE32_def)

lemma written_command_buildPacket [simp]:
  "written_command (encode (buildPacket cmd payload ck)) = Some (opcode cmd)"
  by (simp add: written_command_def decode_encode buildPacket_Cons)

lemmas build_defs =
  buildSyncCommand_def buildSpiAttachCommand_def buildFlashBeginCommand_def
  buildFlashDataCommand_def buildFlashEndCommand_def buildChangeBaudCommand_def
  buildReadRegCommand_def buildWriteRegCommand_def

lemmas state_defs =
  FlashingState_of_def FlashingState_connecting_def FlashingState_syncing_def
  FlashingState_changingBaudRate_def FlashingState_erasing_def FlashingState_flashing_def
  FlashingState_verifying_def FlashingState_restarting_def FlashingState_complete_def
  FlashingState_error_def

subsection \<open>Waiting for a response\<close>

lemma obeys_decoder_process [obeys_intros]: "obeys P (decoder_process bs)"
  by (rule obeysI) (auto simp add: decoder_process_def extends_def split: prod.splits)

lemma obeys_wait_loop:
  assumes "P (CancelCheck (WaitPoll cmd) True)" and "P (CancelCheck (WaitPoll cmd) False)"
  shows "obeys P (wait_loop cmd polls)"
proof (induction polls)
  case Nil
  show ?case by (simp add: obeys_intros)
next
  case (Cons outcome later)
  show ?case
    unfolding wait_loop.simps
    by (intro obeys_intros assms) (auto split: exn.splits option.splits intro: obeys_intros Cons)
qed

lemma obeys_waitForResponse [obeys_intros]:
  assumes "P (CancelCheck (WaitPoll cmd) True)" and "P (CancelCheck (WaitPoll cmd) False)"
  shows "obeys P (waitForResponse cmd t)"
proof (rule obeysI)
  fix s r s'
  assume a: "waitForResponse cmd t s = (r, s')"
  define s0 where "s0 = (case reads s of [] \<Rightarrow> s\<lparr>decoder := reset (decoder s)\<rparr>
                         | polls # rest \<Rightarrow> s\<lparr>reads := rest, decoder := reset (decoder s)\<rparr>)"
  have 0: "extends P s s0"
    by (auto simp add: s0_def extends_def split: list.splits)
  from a obtain polls where "wait_loop cmd polls s0 = (r, s')"
    by (cases "reads s") (auto simp add: waitForResponse_def s0_def simp del: wait_loop.simps)
  then have "extends P s0 s'"
    using obeys_wait_loop [OF assms] by (auto dest: obeysD)
  with 0 show "extends P s s'" by (rule extends_trans)
qed

subsection \<open>The parts of a run\<close>

lemma obeys_performSync:
  assumes "P (Write (encode buildSyncCommand))" and "P Flush"
    and "P (CancelCheck (WaitPoll Sync) True)" and "P (CancelCheck (WaitPoll Sync) False)"
  shows "obeys P performSync"
  unfolding performSync_def
  by (intro obeys_intros assms)

lemma obeys_syncWithRetry_loop:
  assumes "obeys P performSync" and "P (Sleep SYNC_RETRY_DELAY_MS)"
  shows "obeys P (syncWithRetry_loop attempt)"
proof (induction attempt rule: syncWithRetry_loop.induct)
  case (1 attempt)
  show ?case
    by (subst syncWithRetry_loop.simps) (intro obeys_intros assms 1; simp)
qed

lemma obeys_reopen_loop:
  assumes "P (PortOpen True)" and "P (PortOpen False)" and "P Flush" and "P (Sleep 500)"
  shows "obeys P (reopen_loop path attempt)"
proof (induction path attempt rule: reopen_loop.induct)
  case (1 path attempt)
  show ?case
    by (subst reopen_loop.simps) (intro obeys_intros assms 1; simp)
qed

lemma obeys_writeReg:
  assumes "P (Write (encode (buildWriteRegCommand a v 0xFFFFFFFF 0)))"
    and "P (CancelCheck (WaitPoll WriteReg) True)" and "P (CancelCheck (WaitPoll WriteReg) False)"
  shows "obeys P (writeReg a v)"
  unfolding writeReg_def
  by (intro obeys_intros assms)

lemma obeys_readReg:
  assumes "P (Write (encode (buildReadRegCommand a)))"
    and "P (CancelCheck (WaitPoll ReadReg) True)" and "P (CancelCheck (WaitPoll ReadReg) False)"
  shows "obeys P (readReg a)"
  unfolding readReg_def
  by (intro obeys_intros assms)

lemma connect_event_simps [simp]:
  "connect_event (Write (encode (buildPacket Sync p c)))"
  "connect_event (Write (encode (buildPacket ChangeBaudRate p c)))"
  "connect_event (Write (encode (buildPacket SpiAttach p c)))"
  "connect_event (Write (encode (buildPacket ReadReg p c)))"
  "connect_event (Write (encode (buildPacket WriteReg p c)))"
  by simp_all

lemma obeys_disableWatchdogs: "obeys connect_event disableWatchdogs"
  unfolding disableWatchdogs_def
  by (intro obeys_intros obeys_writeReg obeys_readReg) (simp_all add: build_defs)

lemma obeys_connect_performSync: "obeys connect_event performSync"
  by (rule obeys_performSync) (simp_all add: build_defs)

lemma obeys_connect_syncWithRetry: "obeys connect_event syncWithRetry"
  unfolding syncWithRetry_def
  by (rule obeys_syncWithRetry_loop) (simp_all add: obeys_connect_performSync)

lemma obeys_usbJtagSerialReset: "(\<And>b. P (DTR b)) \<Longrightarrow> (\<And>b. P (RTS b)) \<Longrightarrow> (\<And>n. P (Sleep n)) \<Longrightarrow> obeys P usbJtagSerialReset"
  unfolding usbJtagSerialReset_def by (intro obeys_intros) 

lemma obeys_classicReset: "(\<And>b. P (DTR b)) \<Longrightarrow> (\<And>b. P (RTS b)) \<Longrightarrow> (\<And>n. P (Sleep n)) \<Longrightarrow> obeys P classicReset"
  unfolding classicReset_def by (intro obeys_intros)

lemma obeys_hardReset: "(\<And>b. P (DTR b)) \<Longrightarrow> (\<And>b. P (RTS b)) \<Longrightarrow> (\<And>n. P (Sleep n)) \<Longrightarrow> obeys P hardReset"
  unfolding hardReset_def by (intro obeys_intros)

lemma obeys_connect: "obeys connect_event (runFlashing_connect port baudRate)"
  unfolding runFlashing_connect_def Let_def enterBootloaderMode_def changeBaudRate_def
    spiAttach_def
  by (intro obeys_intros obeys_connect_syncWithRetry obeys_disableWatchdogs
        obeys_connect_performSync obeys_reopen_loop obeys_usbJtagSerialReset obeys_classicReset)
     (simp_all add: build_defs state_defs)

lemma obeys_throw_if_cancelled:
  "P (CancelCheck here True) \<Longrightarrow> P (CancelCheck here False) \<Longrightarrow>
   obeys P (throw_if_cancelled here)"
  unfolding throw_if_cancelled_def by (intro obeys_intros)

lemma obeys_flashData:
  assumes "P (Write (encode (buildFlashDataCommand block (word_of_int n))))"
    and "P (CancelCheck (WaitPoll FlashData) True)" and "P (CancelCheck (WaitPoll FlashData) False)"
  shows "obeys P (flashData block n)"
  unfolding flashData_def by (intro obeys_intros assms)

lemma obeys_flashBegin:
  assumes "P (Write (encode (buildFlashBeginCommand a b c d False)))"
    and "P (CancelCheck (WaitPoll FlashBegin) True)" and "P (CancelCheck (WaitPoll FlashBegin) False)"
  shows "obeys P (flashBegin a b c d)"
  unfolding flashBegin_def by (intro obeys_intros assms)

lemma obeys_flash_blocks:
  "obeys image_event (flash_blocks img totalBytes bytesFlashed numBlocks blockNum)"
proof (induction img totalBytes bytesFlashed numBlocks blockNum rule: flash_blocks.induct)
  case (1 img totalBytes bytesFlashed numBlocks blockNum)
  show ?case
    by (subst flash_blocks.simps)
       (intro obeys_intros obeys_throw_if_cancelled obeys_flashData 1;
        simp add: build_defs state_defs)
qed

lemma obeys_flash_images: "obeys image_event (flash_images fw totalBytes bytesFlashed)"
proof (induction fw arbitrary: bytesFlashed)
  case Nil
  show ?case by (simp add: obeys_intros)
next
  case (Cons img rest)
  show ?case
    unfolding flash_images.simps
    by (intro obeys_intros obeys_throw_if_cancelled obeys_flashBegin obeys_flash_blocks Cons;
        simp add: build_defs state_defs)
qed

lemma obeys_cleanup: "P PortClose \<Longrightarrow> obeys P cleanup"
  unfolding cleanup_def by (intro obeys_intros)

lemma obeys_flashEnd: "obeys finish_event (flashEnd reboot usb)"
  unfolding flashEnd_def
  by (intro obeys_intros obeys_hardReset; simp add: build_defs)

lemma obeys_finish: "obeys finish_event (runFlashing_finish port)"
  unfolding runFlashing_finish_def
  by (intro obeys_intros obeys_flashEnd obeys_cleanup; simp add: state_defs)

lemma obeys_catch: "obeys catch_event (runFlashing_catch e)"
  unfolding runFlashing_catch_def Let_def
  by (intro obeys_intros obeys_cleanup; simp add: state_defs)

subsection \<open>Returning normally after a look at the flag\<close>

named_theorems unseen_intros

lemma unseenD: "unseen m \<Longrightarrow> m s = (Inr x, s') \<Longrightarrow> \<not> seen s'"
  by (auto simp add: unseen_def)

lemma keeps_unseenD: "keeps_unseen m \<Longrightarrow> m s = (Inr x, s') \<Longrightarrow> \<not> seen s \<Longrightarrow> \<not> seen s'"
  by (auto simp add: keeps_unseen_def)

lemma unseen_keeps: "unseen m \<Longrightarrow> keeps_unseen m"
  by (auto simp add: unseen_def keeps_unseen_def)

lemma keeps_unseen_returnM [unseen_intros]: "keeps_unseen (returnM x)"
  by (simp add: keeps_unseen_def returnM_def)

lemma keeps_unseen_throw [unseen_intros]: "keeps_unseen (throw e)"
  by (simp add: keeps_unseen_def throw_def)

lemma keeps_unseen_bindM [unseen_intros]:
  "keeps_unseen m \<Longrightarrow> (\<And>x. keeps_unseen (f x)) \<Longrightarrow> keeps_unseen (bindM m f)"
  unfolding keeps_unseen_def bindM_Inr by blast

lemma keeps_unseen_steps_Nil [unseen_intros]: "keeps_unseen (steps [])"
  by (simp add: keeps_unseen_returnM)

lemma keeps_unseen_steps_Cons [unseen_intros]:
  "keeps_unseen m \<Longrightarrow> keeps_unseen (steps ms) \<Longrightarrow> keeps_unseen (steps (m # ms))"
  by (simp add: keeps_unseen_bindM)

lemma keeps_unseen_if [unseen_intros]:
  "(c \<Longrightarrow> keeps_unseen m) \<Longrightarrow> (\<not> c \<Longrightarrow> keeps_unseen m') \<Longrightarrow>
   keeps_unseen (if c then m else m')"
  by simp

lemma seen_trace_update [simp]: "seen (s\<lparr>trace := t\<rparr>) = seen s"
  by (simp add: seen_def split: option.splits)

lemma seen_write_errs_update [simp]: "seen (s\<lparr>write_errs := w\<rparr>) = seen s"
  by (simp add: seen_def split: option.splits)

lemma seen_reads_update [simp]: "seen (s\<lparr>reads := w\<rparr>) = seen s"
  by (simp add: seen_def split: option.splits)

lemma seen_decoder_update [simp]: "seen (s\<lparr>decoder := w\<rparr>) = seen s"
  by (simp add: seen_def split: option.splits)

lemma keeps_unseen_log [unseen_intros]: "keeps_unseen (log e)"
  by (simp add: keeps_unseen_def)

lemma keeps_unseen_emit_stateChanged [unseen_intros]: "keeps_unseen (emit_stateChanged st)"
  by (simp add: emit_stateChanged_def keeps_unseen_log)

lemma keeps_unseen_sleepMs [unseen_intros]: "keeps_unseen (sleepMs n)"
  by (simp add: sleepMs_def keeps_unseen_log)

lemma keeps_unseen_conn_write [unseen_intros]: "keeps_unseen (conn_write bs)"
  by (auto simp add: keeps_unseen_def conn_write_def split: if_splits list.splits option.splits)

lemma isCancelled_result:
  "isCancelled here s = (r, s') \<Longrightarrow>
   (\<exists>c. r = Inr c \<and> seen s' = c \<and> (seen s \<longrightarrow> c) \<and>
        s' = s\<lparr>tick := tick s + 1, trace := trace s @ [CancelCheck here c]\<rparr>)"
  by (auto simp add: isCancelled_def Let_def seen_def less_Suc_eq_le split: option.splits)

lemma keeps_unseen_throw_if_cancelled [unseen_intros]: "keeps_unseen (throw_if_cancelled here)"
  unfolding keeps_unseen_def throw_if_cancelled_def bindM_Inr
  by (auto dest!: isCancelled_result simp add: throw_def returnM_def split: if_splits)

text \<open>The try block of one iteration of the wait loop does not look at the flag.\<close>

lemma wait_try_seen:
  assumes "try_catch
            (bindM (conn_read outcome) (\<lambda>bs.
               bindM (decoder_process bs) (\<lambda>packets. returnM (find_response cmd packets))))
            (\<lambda>e. case e of
                    SerialError t err \<Rightarrow> if t = SerialTimeout then returnM None else throw e
                  | RuntimeError msg \<Rightarrow> throw e) s = (r, s')"
  shows "seen s' = seen s"
  using assms
  by (auto simp add: try_catch_def bindM_def conn_read_def decoder_process_def returnM_def
        throw_def split: prod.splits sum.splits if_splits read_result.splits exn.splits)

lemma unseen_wait_loop: "unseen (wait_loop cmd polls)"
proof (induction polls)
  case Nil
  show ?case by (simp add: unseen_def throw_def)
next
  case (Cons outcome later)
  show ?case
    unfolding unseen_def
  proof (intro allI impI)
    fix s x s'
    assume a: "wait_loop cmd (outcome # later) s = (Inr x, s')"
    then obtain c s1 where 1: "isCancelled (WaitPoll cmd) s = (Inr c, s1)"
      and 2: "(if c then throw (RuntimeError ''Cancelled'')
               else bindM
                 (try_catch
                   (bindM (conn_read outcome) (\<lambda>bs.
                      bindM (decoder_process bs) (\<lambda>packets. returnM (find_response cmd packets))))
                   (\<lambda>e. case e of
                      SerialError t err \<Rightarrow> if t = SerialTimeout then returnM None else throw e
                    | RuntimeError msg \<Rightarrow> throw e))
                 (\<lambda>found. case found of Some response \<Rightarrow> returnM response
                                       | None \<Rightarrow> wait_loop cmd later)) s1 = (Inr x, s')"
      by (auto simp add: bindM_Inr)
    from 2 have nc: "\<not> c" by (auto simp add: throw_def split: if_splits)
    with 1 have u1: "\<not> seen s1" by (auto dest!: isCancelled_result)
    from 2 nc obtain found s2 where 3: "try_catch
                   (bindM (conn_read outcome) (\<lambda>bs.
                      bindM (decoder_process bs) (\<lambda>packets. returnM (find_response cmd packets))))
                   (\<lambda>e. case e of
                      SerialError t err \<Rightarrow> if t = SerialTimeout then returnM None else throw e
                    | RuntimeError msg \<Rightarrow> throw e) s1 = (Inr found, s2)"
      and 4: "(case found of Some response \<Rightarrow> returnM response
                           | None \<Rightarrow> wait_loop cmd later) s2 = (Inr x, s')"
      by (auto simp add: bindM_Inr)
    from 3 u1 have u2: "\<not> seen s2" by (simp add: wait_try_seen)
    show "\<not> seen s'"
    proof (cases found)
      case None
      with 4 Cons show ?thesis by (auto dest: unseenD)
    next
      case (Some response)
      with 4 u2 show ?thesis by (simp add: returnM_def)
    qed
  qed
qed

lemma unseen_waitForResponse: "unseen (waitForResponse cmd t)"
  unfolding unseen_def
proof (intro allI impI)
  fix s x s'
  assume "waitForResponse cmd t s = (Inr x, s')"
  then obtain polls s0 where "wait_loop cmd polls s0 = (Inr x, s')"
    by (cases "reads s") (auto simp add: waitForResponse_def simp del: wait_loop.simps)
  then show "\<not> seen s'" using unseen_wait_loop by (auto dest: unseenD)
qed

lemma unseen_bindM_check:
  assumes "unseen m" and "\<And>x s y s'. f x s = (Inr y, s') \<Longrightarrow> s' = s"
  shows "unseen (bindM m f)"
  unfolding unseen_def bindM_Inr
  using assms by (metis unseenD)

lemma unseen_steps_last: "unseen m \<Longrightarrow> unseen (steps [m])"
  by (auto simp add: unseen_def bindM_Inr returnM_def)

lemma unseen_steps_later: "unseen (steps (m' # ms)) \<Longrightarrow> unseen (steps (m # m' # ms))"
  unfolding unseen_def steps_Cons_Inr [of m] by blast

lemma unseen_wait_check:
  "unseen (bindM (waitForResponse cmd t) (\<lambda>response. if c response then throw (e response) else returnM ()))"
  by (rule unseen_bindM_check [OF unseen_waitForResponse])
     (auto simp add: throw_def returnM_def split: if_splits)

lemma unseen_spiAttach: "unseen spiAttach"
  unfolding spiAttach_def
  by (intro unseen_steps_later unseen_steps_last unseen_wait_check)

lemma unseen_flashBegin: "unseen (flashBegin a b c d)"
  unfolding flashBegin_def
  by (intro unseen_steps_later unseen_steps_last unseen_wait_check)

lemma unseen_flashData: "unseen (flashData block n)"
  unfolding flashData_def
  by (intro unseen_steps_later unseen_steps_last unseen_wait_check)

lemma unseen_connect: "unseen (runFlashing_connect port baudRate)"
  unfolding runFlashing_connect_def Let_def
  by (intro unseen_steps_later unseen_steps_last unseen_spiAttach)

lemma keeps_unseen_flash_blocks:
  "keeps_unseen (flash_blocks img totalBytes bytesFlashed numBlocks blockNum)"
proof (induction img totalBytes bytesFlashed numBlocks blockNum rule: flash_blocks.induct)
  case (1 img totalBytes bytesFlashed numBlocks blockNum)
  show ?case
    by (subst flash_blocks.simps)
       (intro unseen_intros unseen_keeps [OF unseen_flashData] 1; simp)
qed

lemma keeps_unseen_flash_images: "keeps_unseen (flash_images fw totalBytes bytesFlashed)"
proof (induction fw arbitrary: bytesFlashed)
  case Nil
  show ?case by (simp add: unseen_intros)
next
  case (Cons img rest)
  show ?case
    unfolding flash_images.simps
    by (intro unseen_intros unseen_keeps [OF unseen_flashBegin] keeps_unseen_flash_blocks Cons)
qed

subsection \<open>The catch block\<close>

lemma emitted_states_append [simp]:
  "emitted_states (xs @ ys) = emitted_states xs @ emitted_states ys"
  by (induction xs rule: emitted_states.induct) simp_all

lemma seen_flag_now: "seen s \<Longrightarrow> flag_now s"
  by (auto simp add: seen_def flag_now_def split: option.splits)

lemma flag_now_updates [simp]:
  "flag_now (s\<lparr>trace := t\<rparr>) = flag_now s"
  "flag_now (s\<lparr>fd_open := b\<rparr>) = flag_now s"
  "flag_now (s\<lparr>m_isFlashing := b\<rparr>) = flag_now s"
  by (simp_all add: flag_now_def split: option.splits)

lemma cleanup_result:
  "cleanup s =
     (Inr (), s\<lparr>fd_open := False, m_isFlashing := False,
               trace := trace s @ (if fd_open s then [PortClose] else [])\<rparr>)"
  by (cases "fd_open s") (simp_all add: cleanup_def conn_close_def bindM_def returnM_def)

lemma isCancelled_apply:
  "isCancelled here s =
     (Inr (flag_now s), s\<lparr>tick := tick s + 1, trace := trace s @ [CancelCheck here (flag_now s)]\<rparr>)"
  by (simp add: isCancelled_def Let_def flag_now_def)

lemma catch_emit:
  "(let errorMsg = what e in
             bindM (isCancelled ErrorHandler) (\<lambda>c.
               if c \<or> contains errorMsg ''Cancelled'' then
                 emit_stateChanged (FlashingState_error Cancelled [] 0)
               else if contains errorMsg ''sync'' then
                 emit_stateChanged (FlashingState_error SyncFailed errorMsg SYNC_RETRIES)
               else if contains errorMsg ''Cannot open'' \<or> contains errorMsg ''reopen'' then
                 emit_stateChanged (FlashingState_error ConnectionFailed errorMsg 0)
               else
                 emit_stateChanged (FlashingState_error ConnectionFailed errorMsg 0))) s =
   (Inr (), s\<lparr>tick := tick s + 1,
               trace := trace s @ [CancelCheck ErrorHandler (flag_now s),
                  StateChanged (catch_state e (flag_now s))]\<rparr>)"
  unfolding Let_def bindM_def isCancelled_apply catch_state_def emit_stateChanged_def
  by (simp del: contains.simps)

lemma catch_result:
  "runFlashing_catch e s =
     (Inr (), s\<lparr>fd_open := False, m_isFlashing := False, tick := tick s + 1,
               trace := trace s @ (if fd_open s then [PortClose] else []) @
                 [CancelCheck ErrorHandler (flag_now s),
                  StateChanged (catch_state e (flag_now s)), Finished False]\<rparr>)"
  unfolding runFlashing_catch_def steps.simps
  apply (subst bindM_def)
  apply (simp only: cleanup_result prod.case sum.case)
  apply (subst bindM_def)
  apply (simp only: catch_emit prod.case sum.case)
  apply (simp add: emit_finished_def bindM_def returnM_def)
  done

subsection \<open>The finishing part\<close>

lemma bindM_assoc: "bindM (bindM m f) g = bindM m (\<lambda>x. bindM (f x) g)"
  by (rule ext) (simp add: bindM_def split: prod.splits sum.splits)

lemma returnM_bindM: "bindM (returnM x) f = f x"
  by (rule ext) (simp add: bindM_def returnM_def)

lemma finish_head_tail: "runFlashing_finish port = bindM finish_head (\<lambda>_. finish_tail port)"
  by (simp add: runFlashing_finish_def finish_head_def finish_tail_def flashEnd_def
        bindM_assoc returnM_bindM)

lemma obeys_finish_head: "obeys (\<lambda>e. finish_event e \<and> \<not> is_check e) finish_head"
  unfolding finish_head_def
  by (intro obeys_intros; simp add: state_defs build_defs)

lemma obeys_finish_tail: "obeys (\<lambda>e. finish_event e \<and> \<not> is_write e) (finish_tail port)"
  unfolding finish_tail_def
  by (intro obeys_intros obeys_hardReset obeys_cleanup; simp add: state_defs)

lemma finish_tail_closes: "finish_tail port s = (Inr u, s') \<Longrightarrow> \<not> fd_open s'"
  unfolding finish_tail_def
  by (auto simp add: bindM_Inr cleanup_result emit_finished_def returnM_def)

subsection \<open>The shape of a run\<close>

lemma writes_of_append [simp]: "writes_of cmd (xs @ ys) = writes_of cmd xs @ writes_of cmd ys"
  by (induction xs rule: writes_of.induct) simp_all

lemma writes_of_none:
  "list_all P es \<Longrightarrow> (\<And>bs. P (Write bs) \<Longrightarrow> written_command bs \<noteq> Some (opcode cmd)) \<Longrightarrow>
   writes_of cmd es = []"
  by (induction es rule: writes_of.induct) auto

lemma saw_cancel_none:
  "list_all P es \<Longrightarrow> (\<And>here. \<not> P (CancelCheck here True)) \<Longrightarrow> \<not> saw_cancel es"
  by (auto simp add: saw_cancel_def list_all_iff)

lemma catch_result':
  "runFlashing_catch e s = (r, s') \<Longrightarrow> \<not> fd_open s' \<and> trace s' = trace s @ catch_tail e s"
  by (auto simp add: catch_result catch_tail_def)

lemma thread_start_simps [simp]:
  "trace (thread_start env) = []" "\<not> seen (thread_start env)"
  "\<not> fd_open (thread_start env)"
  by (simp_all add: thread_start_def seen_def split: option.splits)

lemma extends_from_start:
  "extends P (thread_start env) s \<Longrightarrow> list_all P (trace s) \<and> (saw_cancel (trace s) \<longrightarrow> seen s)"
  by (auto simp add: extends_def)

lemma extendsE:
  assumes "extends P s s'"
  obtains es where "trace s' = trace s @ es" "list_all P es" "saw_cancel es \<longrightarrow> seen s'"
  using assms unfolding extends_def by blast

subsection \<open>The block events of the loops\<close>

lemma flashing_progress_append [simp]:
  "flashing_progress (xs @ ys) = flashing_progress xs @ flashing_progress ys"
  by (induction xs rule: flashing_progress.induct) simp_all

lemma flashing_progress_block_events: "flashing_progress (filter block_event es) = flashing_progress es"
  by (induction es rule: flashing_progress.induct) simp_all

lemma writes_of_block_events: "writes_of FlashData (filter block_event es) = writes_of FlashData es"
proof (induction es)
  case Nil
  show ?case by simp
next
  case (Cons e es)
  then show ?case by (cases e) simp_all
qed

lemma no_block_events:
  "list_all P es \<Longrightarrow> (\<And>e. P e \<Longrightarrow> \<not> block_event e) \<Longrightarrow> filter block_event es = []"
  by (induction es) auto

lemma connect_no_block_event: "connect_event e \<Longrightarrow> \<not> block_event e"
  by (cases e) (auto simp add: state_defs)

lemma finish_no_block_event: "finish_event e \<Longrightarrow> \<not> block_event e"
  by (cases e) (auto simp add: state_defs)

lemma catch_tail_no_block_event [simp]: "filter block_event (catch_tail e s) = []"
  by (simp add: catch_tail_def catch_state_def state_defs)

text \<open>A computation that obeys \<open>\<lambda>e. \<not> block_event e\<close> appends no block event.\<close>

lemma quietE:
  assumes "obeys (\<lambda>e. \<not> block_event e) m" and "m s = (r, s')"
  obtains es where "trace s' = trace s @ es" "filter block_event es = []"
proof -
  from obeysD [OF assms] obtain es where "trace s' = trace s @ es" "list_all (\<lambda>e. \<not> block_event e) es"
    by (rule extendsE)
  then show thesis using that [of es] by (simp add: no_block_events)
qed

lemma throw_if_cancelled_quiet: "obeys (\<lambda>e. \<not> block_event e) (throw_if_cancelled here)"
  by (rule obeys_throw_if_cancelled) simp_all

lemma wait_check_quiet:
  "obeys (\<lambda>e. \<not> block_event e)
     (bindM (waitForResponse cmd t) (\<lambda>response. if c response then throw (e response) else returnM ()))"
  by (intro obeys_intros) simp_all

lemma conn_write_trace:
  assumes "conn_write bs s = (r, s')"
  shows "(r \<noteq> Inr () \<and> trace s' = trace s) \<or> trace s' = trace s @ [Write bs]"
  using assms
  by (auto simp add: conn_write_def split: if_splits list.splits option.splits)

lemma flashData_block_events:
  assumes "flashData blk n s = (r, s')"
  obtains es where "trace s' = trace s @ es"
    "(r \<noteq> Inr () \<and> filter block_event es = []) \<or>
     filter block_event es = [Write (encode (buildFlashDataCommand blk (word_of_int n)))]"
proof -
  let ?f = "encode (buildFlashDataCommand blk (word_of_int n))"
  let ?w = "bindM (waitForResponse FlashData RESPONSE_TIMEOUT) (\<lambda>response.
              if \<not> isSuccess response then
                throw (RuntimeError (''Flash data failed at block '' @ arg_int n
                                      @ '': status='' @ arg_int (uint (status response))))
              else returnM ())"
  have k: "block_event (Write ?f)" by (simp add: buildFlashDataCommand_def)
  obtain r1 s1 where 1: "conn_write ?f s = (r1, s1)" by (cases "conn_write ?f s")
  show thesis
  proof (cases r1)
    case (Inl e)
    with 1 assms have "r = Inl e" "s' = s1"
      by (auto simp add: flashData_def bindM_def)
    with 1 Inl conn_write_trace [OF 1] k show ?thesis
      by (intro that [of "if trace s1 = trace s then [] else [Write ?f]"]) auto
  next
    case (Inr u)
    with 1 conn_write_trace [OF 1] have t1: "trace s1 = trace s @ [Write ?f]" by auto
    from 1 Inr assms have 2: "?w s1 = (r, s')"
      by (auto simp add: flashData_def bindM_def returnM_def split: prod.splits sum.splits)
    from wait_check_quiet 2 obtain es where "trace s' = trace s1 @ es" "filter block_event es = []"
      by (rule quietE)
    with t1 k show ?thesis
      by (intro that [of "Write ?f # es"]) auto
  qed
qed


lemma emitsE:
  assumes "emits m ks" and "m s = (r, s')"
  obtains es where "trace s' = trace s @ es" "prefix (filter block_event es) ks"
    "r = Inr () \<longrightarrow> filter block_event es = ks"
  using assms unfolding emits_def by blast

lemma emits_quiet:
  assumes "obeys (\<lambda>e. \<not> block_event e) m"
  shows "emits m []"
  unfolding emits_def
proof (intro allI impI)
  fix s r s' assume "m s = (r, s')"
  with assms obtain es where "trace s' = trace s @ es" "filter block_event es = []"
    by (rule quietE)
  then show "\<exists>es. trace s' = trace s @ es \<and> prefix (filter block_event es) [] \<and>
              (r = Inr () \<longrightarrow> filter block_event es = [])"
    by auto
qed

lemma emits_returnM: "emits (returnM ()) []"
  by (simp add: emits_def returnM_def)

lemma emits_steps_Nil: "emits (steps []) []"
  by (simp add: emits_def returnM_def)

lemma emits_steps_Cons:
  assumes "emits m ks" and "emits (steps ms) ks'"
  shows "emits (steps (m # ms)) (ks @ ks')"
  unfolding emits_def
proof (intro allI impI)
  fix s r s' assume run: "steps (m # ms) s = (r, s')"
  obtain r1 s1 where 1: "m s = (r1, s1)" by (cases "m s")
  from assms(1) 1 obtain es1 where e1: "trace s1 = trace s @ es1"
    "prefix (filter block_event es1) ks" "r1 = Inr () \<longrightarrow> filter block_event es1 = ks"
    by (rule emitsE)
  show "\<exists>es. trace s' = trace s @ es \<and> prefix (filter block_event es) (ks @ ks') \<and>
              (r = Inr () \<longrightarrow> filter block_event es = ks @ ks')"
  proof (cases r1)
    case (Inl e)
    with 1 run have "r = Inl e" "s' = s1" by (simp_all add: bindM_def)
    with e1 show ?thesis by (intro exI [of _ es1]) (auto intro: prefix_order.trans)
  next
    case (Inr u)
    with 1 run have 2: "steps ms s1 = (r, s')" by (simp add: bindM_def)
    from assms(2) 2 obtain es2 where e2: "trace s' = trace s1 @ es2"
      "prefix (filter block_event es2) ks'" "r = Inr () \<longrightarrow> filter block_event es2 = ks'"
      by (rule emitsE)
    from Inr e1 have "filter block_event es1 = ks" by simp
    with e1 e2 show ?thesis by (intro exI [of _ "es1 @ es2"]) auto
  qed
qed

lemma emits_emit_stateChanged:
  "emits (emit_stateChanged st) (if state_type st = Flashing then [StateChanged st] else [])"
  by (simp add: emits_def emit_stateChanged_def log_def)

lemma emits_flashData:
  "emits (flashData blk n) [Write (encode (buildFlashDataCommand blk (word_of_int n)))]"
  unfolding emits_def
proof (intro allI impI)
  fix s r s' assume "flashData blk n s = (r, s')"
  then obtain es where "trace s' = trace s @ es"
    "(r \<noteq> Inr () \<and> filter block_event es = []) \<or>
     filter block_event es = [Write (encode (buildFlashDataCommand blk (word_of_int n)))]"
    by (rule flashData_block_events)
  then show "\<exists>es. trace s' = trace s @ es \<and>
      prefix (filter block_event es) [Write (encode (buildFlashDataCommand blk (word_of_int n)))] \<and>
      (r = Inr () \<longrightarrow>
         filter block_event es = [Write (encode (buildFlashDataCommand blk (word_of_int n)))])"
    by (intro exI [of _ es]) auto
qed

lemma emits_flash_blocks:
  "emits (flash_blocks img totalBytes bytesFlashed numBlocks blockNum)
     (concat (map (block_events img totalBytes bytesFlashed numBlocks) [blockNum..numBlocks - 1]))"
proof (induction img totalBytes bytesFlashed numBlocks blockNum rule: flash_blocks.induct)
  case (1 img totalBytes bytesFlashed numBlocks blockNum)
  show ?case
  proof (cases "blockNum < numBlocks")
    case False
    then show ?thesis by (subst flash_blocks.simps) (simp add: emits_returnM)
  next
    case True
    then have u: "[blockNum..numBlocks - 1] = blockNum # [blockNum + 1..numBlocks - 1]"
      by (simp add: upto_rec1)
    have "emits (steps [throw_if_cancelled BlockLoop,
               emit_stateChanged
                 (FlashingState_flashing
                    (overallProgress img totalBytes bytesFlashed numBlocks blockNum)),
               flashData (blockData img blockNum) blockNum,
               sleepMs BLOCK_DELAY_MS,
               flash_blocks img totalBytes bytesFlashed numBlocks (blockNum + 1)])
            ([] @ [StateChanged (FlashingState_flashing
                    (overallProgress img totalBytes bytesFlashed numBlocks blockNum))]
              @ [Write (block_frame img blockNum)] @ []
              @ concat (map (block_events img totalBytes bytesFlashed numBlocks)
                          [blockNum + 1..numBlocks - 1]) @ [])"
      unfolding block_frame_def
    proof (intro emits_steps_Cons emits_steps_Nil)
      show "emits (throw_if_cancelled BlockLoop) []"
        by (rule emits_quiet) (rule throw_if_cancelled_quiet)
      show "emits (emit_stateChanged (FlashingState_flashing
                    (overallProgress img totalBytes bytesFlashed numBlocks blockNum)))
              [StateChanged (FlashingState_flashing
                    (overallProgress img totalBytes bytesFlashed numBlocks blockNum))]"
        using emits_emit_stateChanged [of "FlashingState_flashing
                    (overallProgress img totalBytes bytesFlashed numBlocks blockNum)"]
        by (simp add: state_defs)
      show "emits (flashData (blockData img blockNum) blockNum)
              [Write (encode (buildFlashDataCommand (blockData img blockNum)
                                (word_of_int blockNum)))]"
        by (rule emits_flashData)
      show "emits (sleepMs BLOCK_DELAY_MS) []"
        by (rule emits_quiet) (simp add: sleepMs_def obeys_log)
      show "emits (flash_blocks img totalBytes bytesFlashed numBlocks (blockNum + 1))
              (concat (map (block_events img totalBytes bytesFlashed numBlocks)
                          [blockNum + 1..numBlocks - 1]))"
        using True by (rule 1)
    qed
    with True show ?thesis
      by (subst flash_blocks.simps) (simp add: block_events_def u del: flash_blocks.simps)
  qed
qed

lemma flashBegin_quiet: "obeys (\<lambda>e. \<not> block_event e) (flashBegin a b c d)"
  unfolding flashBegin_def
  by (intro obeys_intros) (simp_all add: buildFlashBeginCommand_def)

lemma emits_flash_images:
  "emits (flash_images fw totalBytes bytesFlashed) (expected_events fw totalBytes bytesFlashed)"
proof (induction fw arbitrary: bytesFlashed)
  case Nil
  show ?case by (simp add: emits_returnM)
next
  case (Cons img rest)
  have "emits (steps [throw_if_cancelled ImageLoop,
            emit_stateChanged FlashingState_erasing,
            flashBegin (word_of_int (image_size img)) (word_of_int (numBlocks_of img))
              (word_of_int FLASH_BLOCK_SIZE) (offset img),
            flash_blocks img totalBytes bytesFlashed (numBlocks_of img) 0,
            flash_images rest totalBytes (bytesFlashed + image_size img)])
          ([] @ [] @ [] @
           concat (map (block_events img totalBytes bytesFlashed (numBlocks_of img))
                     [0..numBlocks_of img - 1]) @
           expected_events rest totalBytes (bytesFlashed + image_size img) @ [])"
  proof (intro emits_steps_Cons emits_steps_Nil)
    show "emits (throw_if_cancelled ImageLoop) []"
      by (rule emits_quiet) (rule throw_if_cancelled_quiet)
    show "emits (emit_stateChanged FlashingState_erasing) []"
      using emits_emit_stateChanged [of FlashingState_erasing] by (simp add: state_defs)
    show "emits (flashBegin (word_of_int (image_size img)) (word_of_int (numBlocks_of img))
              (word_of_int FLASH_BLOCK_SIZE) (offset img)) []"
      by (rule emits_quiet) (rule flashBegin_quiet)
    show "emits (flash_blocks img totalBytes bytesFlashed (numBlocks_of img) 0)
            (concat (map (block_events img totalBytes bytesFlashed (numBlocks_of img))
                     [0..numBlocks_of img - 1]))"
      by (rule emits_flash_blocks)
    show "emits (flash_images rest totalBytes (bytesFlashed + image_size img))
            (expected_events rest totalBytes (bytesFlashed + image_size img))"
      by (rule Cons.IH)
  qed
  then show ?case by simp
qed

subsection \<open>The case analysis of a run\<close>

text \<open>
  A run either is aborted while connecting or flashing the images, and ends in the catch
  block; or it reaches the finishing part without any look having seen the flag set, and
  then its trace is: the work so far, the finishing part up to the write of \<open>FLASH_END\<close>
  (no look at the flag), the rest of the finishing part (no write), and the events of the
  catch block if the finishing part throws.
\<close>

lemma run_shape:
  obtains
    (aborted) es e s where
      "trace (run fw port baudRate env) = es @ catch_tail e s"
      "list_all working_event es" "saw_cancel es \<longrightarrow> flag_now s"
      "\<not> fd_open (run fw port baudRate env)"
      "prefix (filter block_event es) (expected_events fw (totalSize fw) 0)"
  | (finishing) es a b t where
      "trace (run fw port baudRate env) = es @ a @ b @ t"
      "list_all working_event es" "\<not> saw_cancel es"
      "list_all (\<lambda>e. finish_event e \<and> \<not> is_check e) a"
      "list_all (\<lambda>e. finish_event e \<and> \<not> is_write e) b"
      "t = [] \<or> (\<exists>e s. t = catch_tail e s)"
      "\<not> fd_open (run fw port baudRate env)"
      "filter block_event es = expected_events fw (totalSize fw) 0"
proof -
  let ?s0 = "thread_start env"
  let ?f = "run fw port baudRate env"
  have run: "?f = snd (try_catch
       (steps [runFlashing_connect port baudRate,
               flash_images fw (totalSize fw) 0,
               runFlashing_finish port]) runFlashing_catch ?s0)"
    by (simp add: run_def runFlashing_def)
  obtain r1 s1 where c: "runFlashing_connect port baudRate ?s0 = (r1, s1)"
    by (cases "runFlashing_connect port baudRate ?s0")
  from obeysD [OF obeys_connect c]
  have x1: "list_all connect_event (trace s1)" "saw_cancel (trace s1) \<longrightarrow> seen s1"
    by (auto dest: extends_from_start)
  then have w1: "list_all working_event (trace s1)"
    by (auto simp add: list_all_iff working_event_def)
  from x1(1) have k1: "filter block_event (trace s1) = []"
    by (rule no_block_events) (rule connect_no_block_event)
  show thesis
  proof (cases r1)
    case (Inl e)
    with c have f: "?f = snd (runFlashing_catch e s1)"
      by (simp add: run try_catch_def bindM_def)
    obtain r s' where k: "runFlashing_catch e s1 = (r, s')"
      by (cases "runFlashing_catch e s1")
    from catch_result' [OF k] f k x1 w1 k1 show ?thesis
      by (intro aborted [of "trace s1" e s1]) (auto dest: seen_flag_now)
  next
    case (Inr u)
    with c have u1: "\<not> seen s1" using unseen_connect by (auto dest: unseenD)
    obtain r2 s2 where i: "flash_images fw (totalSize fw) 0 s1 = (r2, s2)"
      by (cases "flash_images fw (totalSize fw) 0 s1")
    from obeysD [OF obeys_flash_images i] obtain es2 where
      x2: "trace s2 = trace s1 @ es2" "list_all image_event es2" "saw_cancel es2 \<longrightarrow> seen s2"
      by (rule extendsE)
    from x2 w1 have w2: "list_all working_event (trace s2)"
      by (auto simp add: list_all_iff working_event_def)
    from x1 x2 obeysD [OF obeys_flash_images i] have sc2: "saw_cancel (trace s2) \<longrightarrow> seen s2"
      by (auto dest: extends_seen)
    from emits_flash_images i obtain es2' where
      "trace s2 = trace s1 @ es2'"
      "prefix (filter block_event es2') (expected_events fw (totalSize fw) 0)"
      "r2 = Inr () \<longrightarrow> filter block_event es2' = expected_events fw (totalSize fw) 0"
      by (rule emitsE)
    with x2 k1 have k2:
      "prefix (filter block_event (trace s2)) (expected_events fw (totalSize fw) 0)"
      "r2 = Inr () \<longrightarrow> filter block_event (trace s2) = expected_events fw (totalSize fw) 0"
      by auto
    show ?thesis
    proof (cases r2)
      case (Inl e)
      with c i \<open>r1 = Inr u\<close> have f: "?f = snd (runFlashing_catch e s2)"
        by (simp add: run try_catch_def bindM_def)
      obtain r s' where k: "runFlashing_catch e s2 = (r, s')"
        by (cases "runFlashing_catch e s2")
      from catch_result' [OF k] f k sc2 w2 k2 show ?thesis
        by (intro aborted [of "trace s2" e s2]) (auto dest: seen_flag_now)
    next
      case (Inr u')
      with i u1 have u2: "\<not> seen s2"
        using keeps_unseen_flash_images by (auto dest: keeps_unseenD)
      with sc2 have nc: "\<not> saw_cancel (trace s2)" by blast
      from Inr k2 have k3: "filter block_event (trace s2) = expected_events fw (totalSize fw) 0"
        by simp
      obtain r3 s3 where h: "finish_head s2 = (r3, s3)"
        by (cases "finish_head s2")
      from obeysD [OF obeys_finish_head h] obtain a where
        x3: "trace s3 = trace s2 @ a" "list_all (\<lambda>e. finish_event e \<and> \<not> is_check e) a"
        by (rule extendsE)
      show ?thesis
      proof (cases r3)
        case (Inl e)
        with c i h \<open>r1 = Inr u\<close> \<open>r2 = Inr u'\<close> have f: "?f = snd (runFlashing_catch e s3)"
          by (simp add: run try_catch_def bindM_def finish_head_tail returnM_def)
        obtain r s' where k: "runFlashing_catch e s3 = (r, s')"
          by (cases "runFlashing_catch e s3")
        from catch_result' [OF k] f k x3 w2 nc k3 show ?thesis
          by (intro finishing [of "trace s2" a "[]" "catch_tail e s3"]) auto
      next
        case (Inr u'')
        obtain r4 s4 where t: "finish_tail port s3 = (r4, s4)"
          by (cases "finish_tail port s3")
        from obeysD [OF obeys_finish_tail t] obtain b where
          x4: "trace s4 = trace s3 @ b" "list_all (\<lambda>e. finish_event e \<and> \<not> is_write e) b"
          by (rule extendsE)
        show ?thesis
        proof (cases r4)
          case (Inl e)
          with c i h t \<open>r1 = Inr u\<close> \<open>r2 = Inr u'\<close> \<open>r3 = Inr u''\<close>
          have f: "?f = snd (runFlashing_catch e s4)"
            by (simp add: run try_catch_def bindM_def finish_head_tail returnM_def)
          obtain r s' where k: "runFlashing_catch e s4 = (r, s')"
            by (cases "runFlashing_catch e s4")
          from catch_result' [OF k] f k x3 x4 w2 nc k3 show ?thesis
            by (intro finishing [of "trace s2" a b "catch_tail e s4"]) auto
        next
          case (Inr u''')
          with c i h t \<open>r1 = Inr u\<close> \<open>r2 = Inr u'\<close> \<open>r3 = Inr u''\<close>
          have f: "?f = s4"
            by (simp add: run try_catch_def bindM_def finish_head_tail returnM_def)
          from t Inr have "\<not> fd_open s4" by (auto dest: finish_tail_closes)
          with f x3 x4 w2 nc k3 show ?thesis
            by (intro finishing [of "trace s2" a b "[]"]) auto
        qed
      qed
    qed
  qed
qed

subsection \<open>Evaluating a concrete run\<close>

text \<open>
  A concrete run is evaluated by rewriting. The two congruence rules keep the rewriting
  from entering a continuation or a handler before the computation in front of it has
  been evaluated.
\<close>

lemma bindM_weak_cong: "m = m' \<Longrightarrow> bindM m f = bindM m' f"
  by simp

lemma try_catch_weak_cong: "m = m' \<Longrightarrow> try_catch m h = try_catch m' h"
  by simp

lemma bindM_apply:
  "bindM m f s = (case m s of (Inl e, s') \<Rightarrow> (Inl e, s') | (Inr x, s') \<Rightarrow> f x s')"
  by (simp add: bindM_def)

lemma try_catch_apply:
  "try_catch m h s = (case m s of (Inl e, s') \<Rightarrow> h e s' | (Inr x, s') \<Rightarrow> (Inr x, s'))"
  by (simp add: try_catch_def)

lemma encode_not_Nil [simp]: "encode xs \<noteq> []"
  by (simp add: encode_concat)

lemma length_encode_le: "length (encode xs) \<le> 2 * length xs + 2"
proof -
  have "length (concat (map encode_step xs)) \<le> 2 * length xs"
    by (induction xs) (simp_all add: encode_step_def)
  then show ?thesis by (simp add: encode_concat)
qed

lemma take_encode: "length xs \<le> 2047 \<Longrightarrow> take 4096 (encode xs) = encode xs"
  using length_encode_le [of xs] by simp

lemma process_encode_reset:
  "x \<noteq> [] \<Longrightarrow> process (encode x) (reset d) = ([x], SLIPDecoder_init)"
  by (simp add: reset_init process_encode)

lemma replicate_7: "replicate 7 x = [x, x, x, x, x, x, x]"
  by (simp add: numeral_eq_Suc)

lemmas run_defs =
  run_def runFlashing_def runFlashing_connect_def runFlashing_finish_def runFlashing_catch_def
  thread_start_def cleanup_def throw_if_cancelled_def
  performSync_def syncWithRetry_def changeBaudRate_def spiAttach_def readReg_def writeReg_def
  disableWatchdogs_def flashBegin_def flashData_def flashEnd_def
  waitForResponse_def decoder_process_def
  enterBootloaderMode_def usbJtagSerialReset_def classicReset_def hardReset_def
  conn_open_def conn_close_def conn_write_def conn_read_def conn_flush_def conn_setBaudRate_def
  setDTR_def setRTS_def setDTRRTS_def
  isCancelled_def emit_stateChanged_def emit_finished_def sleepMs_def
  bindM_apply try_catch_apply returnM_apply throw_apply

lemmas scenario_simps =
  run_defs replicate_7 Let_def BLOCK_DELAY_MS_def SYNC_RETRY_DELAY_MS_def RESPONSE_TIMEOUT_def
  SYNC_RETRIES_def isESP32C3_def take_encode process_encode_reset parse_def
  readLE16_def readLE32_def mid_def isSuccess_def numBlocks_of_def image_size_def
  FLASH_BLOCK_SIZE_def totalSize_def syncWithRetry_loop.simps [of 1]
  flash_blocks.simps [of _ _ _ _ 0] flash_blocks.simps [of _ _ _ _ 1]
  flash_blocks.simps [of _ _ _ _ 2] flash_blocks.simps [of _ _ _ _ 3]
  flash_blocks.simps [of _ _ _ _ 4]
  ok_response_def uart_port_def

subsection \<open>Cancellation\<close>

lemma split_after:
  assumes "E @ L = xs @ c # ys" and "c \<notin> set E"
  shows "\<exists>l. L = l @ c # ys"
proof -
  from assms(1) obtain us where
    "(E = xs @ us \<and> us @ L = c # ys) \<or> (E @ us = xs \<and> L = us @ c # ys)"
    by (auto simp add: append_eq_append_conv2)
  then show ?thesis
  proof
    assume a: "E = xs @ us \<and> us @ L = c # ys"
    show ?thesis
    proof (cases us)
      case Nil
      with a show ?thesis by auto
    next
      case (Cons u us')
      with a have "c \<in> set E" by auto
      with assms(2) show ?thesis by simp
    qed
  next
    assume "E @ us = xs \<and> L = us @ c # ys"
    then show ?thesis by blast
  qed
qed

lemma no_flash_end_after:
  assumes "tr = E @ L" and "\<not> saw_cancel E" and "writes_of FlashEnd L = []"
    and "tr = xs @ CancelCheck here True # ys"
  shows "writes_of FlashEnd ys = []"
proof -
  from assms(2) have "CancelCheck here True \<notin> set E" by (auto simp add: saw_cancel_def)
  with assms(1,4) obtain l where "L = l @ CancelCheck here True # ys"
    using split_after [of E L xs "CancelCheck here True" ys] by auto
  with assms(3) show ?thesis by simp
qed

lemma terminal_state_catch:
  "trace s = xs @ catch_tail e s' \<Longrightarrow> terminal_state s = Some (catch_state e (flag_now s'))"
  by (cases "emitted_states xs") (simp_all add: terminal_state_def catch_tail_def)

lemma working_no_flash_end: "list_all working_event es \<Longrightarrow> writes_of FlashEnd es = []"
  by (rule writes_of_none [of working_event]) (auto simp add: working_event_def)

lemma catch_tail_no_write [simp]: "writes_of cmd (catch_tail e s) = []"
  by (simp add: catch_tail_def)

lemma catch_tail_check:
  "CancelCheck here True \<in> set (catch_tail e s) \<Longrightarrow> here = ErrorHandler \<and> flag_now s"
  by (auto simp add: catch_tail_def split: if_splits)

lemma catch_state_cancelled: "catch_state e True = FlashingState_error Cancelled [] 0"
  by (simp add: catch_state_def)

lemma no_write_no_flash_end:
  "list_all (\<lambda>e. finish_event e \<and> \<not> is_write e) b \<Longrightarrow> writes_of cmd b = []"
  by (induction b rule: writes_of.induct) auto

lemma finish_head_no_check:
  "list_all (\<lambda>e. finish_event e \<and> \<not> is_check e) a \<Longrightarrow> CancelCheck here c \<notin> set a"
  by (auto simp add: list_all_iff)

lemma finish_tail_check:
  "list_all (\<lambda>e. finish_event e \<and> \<not> is_write e) b \<Longrightarrow> CancelCheck here c \<in> set b \<Longrightarrow>
   here = WaitPoll FlashEnd"
  by (auto simp add: list_all_iff)

text \<open>
  C8, as the code has it. Whenever a look at the cancellation flag sees it set, the
  transport is closed at the end of the run and no \<open>FLASH_END\<close> frame is written after
  that look. When the look is not the one of the wait for the \<open>FLASH_END\<close> response
  (it is at the top of the image loop or of the block loop, in the wait for another
  response, or in the catch block), the last state emitted is \<open>Error\<close> with kind
  \<open>Cancelled\<close>; and when it is in one of the loops or in a wait for another response, no
  \<open>FLASH_END\<close> frame is written in the whole run.
\<close>

theorem cancellation_observed:
  assumes "CancelCheck here True \<in> set (trace (run fw port baudRate env))"
  shows "\<not> fd_open (run fw port baudRate env) \<and>
         (\<forall>xs ys. trace (run fw port baudRate env) = xs @ CancelCheck here True # ys \<longrightarrow>
                  writes_of FlashEnd ys = []) \<and>
         (here \<noteq> WaitPoll FlashEnd \<longrightarrow>
            terminal_state (run fw port baudRate env) = Some (FlashingState_error Cancelled [] 0)) \<and>
         (here \<noteq> WaitPoll FlashEnd \<and> here \<noteq> ErrorHandler \<longrightarrow>
            writes_of FlashEnd (trace (run fw port baudRate env)) = [])"
proof (cases rule: run_shape [of fw port baudRate env])
  case (aborted es e s)
  let ?f = "run fw port baudRate env"
  have nw: "writes_of FlashEnd (trace ?f) = []"
    using aborted by (simp add: working_no_flash_end)
  have fl: "flag_now s"
    using assms aborted catch_tail_check [of here e s] by (auto simp add: saw_cancel_def)
  then have ts: "terminal_state ?f = Some (FlashingState_error Cancelled [] 0)"
    using terminal_state_catch [OF aborted(1)] by (simp add: catch_state_cancelled)
  have "\<forall>xs ys. trace ?f = xs @ CancelCheck here True # ys \<longrightarrow> writes_of FlashEnd ys = []"
    using no_flash_end_after [of "trace ?f" "[]" "trace ?f"] nw by auto
  with aborted(4) nw ts show ?thesis by blast
next
  case (finishing es a b t)
  let ?f = "run fw port baudRate env"
  have nt: "writes_of FlashEnd t = []"
    using finishing(6) by auto
  have na: "\<not> saw_cancel (es @ a)"
    using finishing(3,4) by (auto simp add: saw_cancel_def dest: finish_head_no_check)
  have after: "\<forall>xs ys. trace ?f = xs @ CancelCheck here True # ys \<longrightarrow> writes_of FlashEnd ys = []"
    using no_flash_end_after [of "trace ?f" "es @ a" "b @ t"] na nt finishing(1,5)
    by (auto simp add: no_write_no_flash_end)
  from assms finishing(1) na have bt: "CancelCheck here True \<in> set b \<or> CancelCheck here True \<in> set t"
    by (auto simp add: saw_cancel_def)
  have ts: "terminal_state ?f = Some (FlashingState_error Cancelled [] 0)"
    if "here \<noteq> WaitPoll FlashEnd"
  proof -
    from bt that finishing(5) have "CancelCheck here True \<in> set t"
      by (auto dest: finish_tail_check)
    with finishing(6) obtain e s where t: "t = catch_tail e s" "flag_now s"
      by (auto dest: catch_tail_check)
    from finishing(1) t(1) have "trace ?f = (es @ a @ b) @ catch_tail e s" by simp
    from terminal_state_catch [OF this] t(2) show ?thesis
      by (simp add: catch_state_cancelled)
  qed
  have "False" if "here \<noteq> WaitPoll FlashEnd \<and> here \<noteq> ErrorHandler"
    using bt that finishing(5,6) by (auto dest: finish_tail_check catch_tail_check)
  with finishing(7) after ts show ?thesis by blast
qed

theorem cancellation_observed_witness:
  "CancelCheck BlockLoop True
     \<in> set (trace (run small_firmware uart_port Baud115200 cancel_in_block_loop)) \<and>
   \<not> fd_open (run small_firmware uart_port Baud115200 cancel_in_block_loop) \<and>
   terminal_state (run small_firmware uart_port Baud115200 cancel_in_block_loop) =
     Some (FlashingState_error Cancelled [] 0) \<and>
   writes_of FlashEnd (trace (run small_firmware uart_port Baud115200 cancel_in_block_loop)) = []"
proof -
  have h: "CancelCheck BlockLoop True
             \<in> set (trace (run small_firmware uart_port Baud115200 cancel_in_block_loop))"
    by (simp add: scenario_simps small_firmware_def cancel_in_block_loop_def
          cong: bindM_weak_cong try_catch_weak_cong)
  from cancellation_observed [OF h] h show ?thesis by simp
qed

text \<open>
  The claim as stated covers every poll of \<open>waitForResponse\<close>. In the wait for the
  \<open>FLASH_END\<close> response the exception thrown for the cancellation is swallowed by the
  \<open>catch (...)\<close> of \<open>flashEnd\<close>, since \<open>reboot\<close> is true: the run goes on and its
  last state is \<open>Complete\<close>, not \<open>Error\<close> with kind \<open>Cancelled\<close>.
\<close>

theorem cancellation_in_flash_end_wait_counterexample:
  "CancelCheck (WaitPoll FlashEnd) True
     \<in> set (trace (run small_firmware uart_port Baud115200 cancel_in_flash_end_wait)) \<and>
   terminal_state (run small_firmware uart_port Baud115200 cancel_in_flash_end_wait) =
     Some FlashingState_complete \<and>
   terminal_state (run small_firmware uart_port Baud115200 cancel_in_flash_end_wait) \<noteq>
     Some (FlashingState_error Cancelled [] 0)"
proof -
  have "CancelCheck (WaitPoll FlashEnd) True
          \<in> set (trace (run small_firmware uart_port Baud115200 cancel_in_flash_end_wait)) \<and>
        terminal_state (run small_firmware uart_port Baud115200 cancel_in_flash_end_wait) =
          Some FlashingState_complete"
    by (simp add: scenario_simps small_firmware_def cancel_in_flash_end_wait_def
          terminal_state_def cong: bindM_weak_cong try_catch_weak_cong)
  then show ?thesis by (simp add: state_defs)
qed


section \<open>The blocks and the progress of a run\<close>

subsection \<open>What a run writes and reports\<close>

lemma catch_state_not_complete: "catch_state e c \<noteq> FlashingState_complete"
  by (simp add: catch_state_def state_defs)

lemma finish_events_no_block [simp]:
  "list_all (\<lambda>e. finish_event e \<and> P e) es \<Longrightarrow> filter block_event es = []"
  by (rule no_block_events [of "\<lambda>e. finish_event e \<and> P e"]) (auto dest: finish_no_block_event)

lemma run_block_events_prefix:
  "prefix (filter block_event (trace (run fw port baudRate env)))
     (expected_events fw (totalSize fw) 0)"
proof (cases rule: run_shape [of fw port baudRate env])
  case (aborted es e s)
  then show ?thesis by simp
next
  case (finishing es a b t)
  then show ?thesis by auto
qed

lemma run_block_events_complete:
  assumes "terminal_state (run fw port baudRate env) = Some FlashingState_complete"
  shows "filter block_event (trace (run fw port baudRate env))
           = expected_events fw (totalSize fw) 0"
proof (cases rule: run_shape [of fw port baudRate env])
  case (aborted es e s)
  from terminal_state_catch [OF aborted(1)] assms
  have "catch_state e (flag_now s) = FlashingState_complete" by simp
  then show ?thesis by (simp add: catch_state_not_complete)
next
  case (finishing es a b t)
  then show ?thesis by auto
qed

lemma written_command_block_frame [simp]:
  "written_command (block_frame img k) = Some (opcode FlashData)"
  by (simp add: block_frame_def buildFlashDataCommand_def)

lemma writes_of_image_blocks:
  "writes_of FlashData (concat (map (block_events img T F nb) ks)) = map (block_frame img) ks"
  by (induction ks) (simp_all add: block_events_def)

lemma progress_of_image_blocks:
  "flashing_progress (concat (map (block_events img T F nb) ks))
     = map (overallProgress img T F nb) ks"
  by (induction ks) (simp_all add: block_events_def state_defs)

lemma writes_of_expected:
  "writes_of FlashData (expected_events fw T F) = concat (map image_frames fw)"
  by (induction fw arbitrary: F)
     (simp_all add: writes_of_image_blocks image_frames_def)

lemma progress_of_expected:
  "flashing_progress (expected_events fw T F) = expected_progress fw T F"
  by (induction fw arbitrary: F) (simp_all add: progress_of_image_blocks)

lemma prefix_writes_of: "prefix xs ys \<Longrightarrow> prefix (writes_of cmd xs) (writes_of cmd ys)"
  by (auto simp add: prefix_def)

lemma prefix_flashing_progress:
  "prefix xs ys \<Longrightarrow> prefix (flashing_progress xs) (flashing_progress ys)"
  by (auto simp add: prefix_def)

lemma run_frames_prefix:
  "prefix (writes_of FlashData (trace (run fw port baudRate env))) (concat (map image_frames fw))"
  using prefix_writes_of [OF run_block_events_prefix, of FlashData fw port baudRate env]
  by (simp add: writes_of_block_events writes_of_expected)

lemma run_frames_complete:
  assumes "terminal_state (run fw port baudRate env) = Some FlashingState_complete"
  shows "writes_of FlashData (trace (run fw port baudRate env)) = concat (map image_frames fw)"
  using arg_cong [OF run_block_events_complete [OF assms], of "writes_of FlashData"]
  by (simp add: writes_of_block_events writes_of_expected)

lemma run_progress_prefix:
  "prefix (flashing_progress (trace (run fw port baudRate env)))
     (expected_progress fw (totalSize fw) 0)"
  using prefix_flashing_progress [OF run_block_events_prefix, of fw port baudRate env]
  by (simp add: flashing_progress_block_events progress_of_expected)

lemma run_progress_complete:
  assumes "terminal_state (run fw port baudRate env) = Some FlashingState_complete"
  shows "flashing_progress (trace (run fw port baudRate env))
           = expected_progress fw (totalSize fw) 0"
  using arg_cong [OF run_block_events_complete [OF assms], of flashing_progress]
  by (simp add: flashing_progress_block_events progress_of_expected)

subsection \<open>The blocks of an image\<close>

lemma div_round_up: "((s::int) + 1024 - 1) div 1024 = - (- s div 1024)"
proof -
  have "- s = (- ((s + 1023) div 1024)) * 1024 + (1023 - (s + 1023) mod 1024)"
    using div_mult_mod_eq [of "s + 1023" 1024] by linarith
  moreover have "0 \<le> 1023 - (s + 1023) mod 1024" "1023 - (s + 1023) mod 1024 < 1024"
    using pos_mod_bound [of 1024 "s + 1023"] pos_mod_sign [of 1024 "s + 1023"] by linarith+
  ultimately have "- s div 1024 = - ((s + 1023) div 1024)"
    by (metis div_pos_pos_trivial div_mult_self3 add.commute add_0 zero_neq_numeral)
  then show ?thesis by simp
qed

lemma numBlocks_of_ceiling:
  "numBlocks_of img = \<lceil>real_of_int (image_size img) / 1024\<rceil>"
proof -
  have "\<lceil>real_of_int (image_size img) / real_of_int 1024\<rceil> = - (- image_size img div 1024)"
    by (rule ceiling_divide_eq_div)
  moreover have "(image_size img + 1024 - 1) div 1024 = - (- image_size img div 1024)"
    by (rule div_round_up)
  ultimately show ?thesis by (simp add: numBlocks_of_def FLASH_BLOCK_SIZE_def)
qed

lemma blockData_pad:
  assumes "0 \<le> k" and "k * 1024 \<le> image_size img"
  shows "blockData img k = pad (take 1024 (drop (nat k * 1024) (image_data img)))"
proof -
  let ?d = "image_data img"
  have n: "nat (k * 1024) = nat k * 1024" using assms by (simp add: nat_mult_distrib)
  have "min (k * 1024 + 1024) (image_size img) - k * 1024 \<ge> 0" using assms by simp
  then have "mid ?d (k * 1024) (min (k * 1024 + 1024) (image_size img) - k * 1024)
        = take (nat (min (k * 1024 + 1024) (image_size img) - k * 1024)) (drop (nat k * 1024) ?d)"
    by (simp add: mid_def n)
  also have "\<dots> = take 1024 (drop (nat k * 1024) ?d)"
  proof (cases "k * 1024 + 1024 \<le> image_size img")
    case True
    then show ?thesis by (simp add: min_def)
  next
    case False
    with assms have "nat (image_size img - k * 1024) = length ?d - nat k * 1024"
      by (simp add: image_size_def n [symmetric] nat_diff_distrib')
    with False show ?thesis by (simp add: min_def)
  qed
  finally have m: "mid ?d (k * 1024) (min (k * 1024 + 1024) (image_size img) - k * 1024)
        = take 1024 (drop (nat k * 1024) ?d)" .
  have "length (take 1024 (drop (nat k * 1024) ?d)) \<le> 1024" by simp
  then have "nat (1024 - int (length (take 1024 (drop (nat k * 1024) ?d))))
           = 1024 - length (take 1024 (drop (nat k * 1024) ?d))"
    by linarith
  then show ?thesis
    unfolding blockData_def Let_def FLASH_BLOCK_SIZE_def pad_def m
    by (simp del: length_take length_drop)
qed

lemma length_pad: "length sl \<le> 1024 \<Longrightarrow> length (pad sl) = 1024"
  by (simp add: pad_def)

lemma concat_padded_slices:
  "length d \<le> m * 1024 \<Longrightarrow>
   concat (map (\<lambda>j. pad (take 1024 (drop (j * 1024) d))) [0..<m])
     = d @ replicate (m * 1024 - length d) 0xFF"
proof (induction m arbitrary: d)
  case 0
  then show ?case by simp
next
  case (Suc m)
  have "concat (map (\<lambda>j. pad (take 1024 (drop (j * 1024) d))) [0..<Suc m])
      = pad (take 1024 d) @ concat (map (\<lambda>j. pad (take 1024 (drop (j * 1024) (drop 1024 d)))) [0..<m])"
    by (simp add: upt_conv_Cons map_Suc_upt [symmetric] o_def add.commute del: upt_Suc)
  also have "\<dots> = pad (take 1024 d) @ drop 1024 d @ replicate (m * 1024 - length (drop 1024 d)) 0xFF"
    using Suc.prems by (subst Suc.IH) simp_all
  also have "\<dots> = d @ replicate (Suc m * 1024 - length d) 0xFF"
  proof (cases "1024 \<le> length d")
    case True
    then have "pad (take 1024 d) = take 1024 d" by (simp add: pad_def)
    moreover from True have "m * 1024 - (length d - 1024) = Suc m * 1024 - length d" by simp
    ultimately show ?thesis by simp
  next
    case False
    then show ?thesis by (simp add: pad_def replicate_add [symmetric])
  qed
  finally show ?case .
qed

lemma upto_as_upt: "0 \<le> n \<Longrightarrow> [0..n - 1] = map int [0..<nat n]"
proof (induction "nat n" arbitrary: n)
  case 0
  then show ?case by simp
next
  case (Suc m)
  then have "m = nat (n - 1)" "0 \<le> n - 1" by simp_all
  with Suc(1) [of "n - 1"] have "[0..n - 1 - 1] = map int [0..<m]" by simp
  moreover from Suc have "[0..n - 1] = [0..n - 1 - 1] @ [n - 1]" by (simp add: upto_rec2)
  moreover from Suc have "nat n = Suc m" "int m = n - 1" by simp_all
  ultimately show ?case by simp
qed

lemma numBlocks_of_bounds:
  "image_size img \<le> numBlocks_of img * 1024" "numBlocks_of img * 1024 < image_size img + 1024"
proof -
  let ?s = "image_size img"
  have "(?s + 1023) div 1024 * 1024 + (?s + 1023) mod 1024 = ?s + 1023"
    by (rule div_mult_mod_eq)
  moreover have "0 \<le> (?s + 1023) mod 1024" "(?s + 1023) mod 1024 < 1024"
    by simp_all
  ultimately show "?s \<le> numBlocks_of img * 1024" "numBlocks_of img * 1024 < ?s + 1024"
    unfolding numBlocks_of_def FLASH_BLOCK_SIZE_def by linarith+
qed

lemma image_size_nonneg [simp]: "0 \<le> image_size img"
  by (simp add: image_size_def)

lemma numBlocks_of_nonneg: "0 \<le> numBlocks_of img"
  using numBlocks_of_bounds(1) [of img] image_size_nonneg [of img] by linarith

lemma block_in_image:
  assumes "k < numBlocks_of img"
  shows "k * 1024 < image_size img"
  using assms numBlocks_of_bounds(2) [of img] by linarith

lemma length_blockData:
  assumes "0 \<le> k" and "k < numBlocks_of img"
  shows "length (blockData img k) = 1024"
  using assms block_in_image [of k img] by (simp add: blockData_pad length_pad)

lemma concat_blockData:
  "concat (map (blockData img) [0..numBlocks_of img - 1])
     = image_data img @ replicate (nat (numBlocks_of img * 1024 - image_size img)) 0xFF"
proof -
  let ?m = "nat (numBlocks_of img)"
  have blk: "blockData img (int j) = pad (take 1024 (drop (j * 1024) (image_data img)))"
    if "j < ?m" for j
  proof -
    from that have "int j < numBlocks_of img" by simp
    from block_in_image [OF this] show ?thesis by (simp add: blockData_pad)
  qed
  have "map (blockData img) [0..numBlocks_of img - 1]
      = map (\<lambda>j. pad (take 1024 (drop (j * 1024) (image_data img)))) [0..<?m]"
    using numBlocks_of_nonneg [of img] by (simp add: upto_as_upt blk)
  moreover have "length (image_data img) \<le> ?m * 1024"
    using numBlocks_of_bounds(1) [of img] numBlocks_of_nonneg [of img]
    by (simp add: image_size_def)
  moreover have "?m * 1024 - length (image_data img) = nat (numBlocks_of img * 1024 - image_size img)"
    using numBlocks_of_nonneg [of img] by (simp add: image_size_def nat_diff_distrib' nat_mult_distrib)
  ultimately show ?thesis
    using concat_padded_slices [of "image_data img" ?m] by simp
qed

lemma seq_in_range:
  assumes "image_size img + 1023 < 2 ^ 31" and "0 \<le> k" and "k < numBlocks_of img"
  shows "uint (word_of_int k :: 32 word) = k"
proof -
  from assms block_in_image [of k img] have "k < 2 ^ 32" by simp
  with assms(2) show ?thesis by (simp add: uint_word_of_int)
qed

subsection \<open>The progress values\<close>

lemma totalSize_loop_sum: "totalSize_loop fw t = t + sum_list (map image_size fw)"
  by (induction fw arbitrary: t) simp_all

lemma totalSize_sum: "totalSize fw = sum_list (map image_size fw)"
  by (simp add: totalSize_def totalSize_loop_sum)

lemma sum_sizes_nonneg: "0 \<le> sum_list (map image_size fw)"
  by (induction fw) simp_all

lemma empty_image_no_blocks: "image_size img = 0 \<Longrightarrow> numBlocks_of img = 0"
  by (simp add: numBlocks_of_def FLASH_BLOCK_SIZE_def)

lemma no_blocks_empty_image: "numBlocks_of img \<le> 0 \<Longrightarrow> image_size img = 0"
  using numBlocks_of_bounds(1) [of img] image_size_nonneg [of img] by linarith

lemma overallProgress_eq:
  "overallProgress img T F nb k
     = (real_of_int F + real_of_int (k + 1) / real_of_int nb * real_of_int (image_size img))
         / real_of_int T"
  by (simp add: overallProgress_def Let_def)

lemma overallProgress_mono:
  assumes "0 < T" and "0 < nb" and "k \<le> k'"
  shows "overallProgress img T F nb k \<le> overallProgress img T F nb k'"
proof -
  from assms have "real_of_int (k + 1) / real_of_int nb \<le> real_of_int (k' + 1) / real_of_int nb"
    by (simp add: divide_right_mono)
  then have "real_of_int (k + 1) / real_of_int nb * real_of_int (image_size img)
           \<le> real_of_int (k' + 1) / real_of_int nb * real_of_int (image_size img)"
    by (rule mult_right_mono) simp
  with assms(1) show ?thesis
    unfolding overallProgress_eq by (simp add: divide_right_mono)
qed

lemma overallProgress_bounds:
  assumes "0 < T" and "0 \<le> k" and "k < nb"
  shows "real_of_int F / real_of_int T \<le> overallProgress img T F nb k"
    and "overallProgress img T F nb k \<le> real_of_int (F + image_size img) / real_of_int T"
proof -
  let ?q = "real_of_int (k + 1) / real_of_int nb"
  let ?s = "real_of_int (image_size img)"
  from assms have q: "0 \<le> ?q" "?q \<le> 1" by simp_all
  have s: "0 \<le> ?s" by simp
  from q(1) s have "0 \<le> ?q * ?s" by (rule mult_nonneg_nonneg)
  moreover from q(2) s have "?q * ?s \<le> 1 * ?s" by (rule mult_right_mono)
  ultimately have "real_of_int F \<le> real_of_int F + ?q * ?s"
    "real_of_int F + ?q * ?s \<le> real_of_int (F + image_size img)"
    by simp_all
  with assms(1) show "real_of_int F / real_of_int T \<le> overallProgress img T F nb k"
    and "overallProgress img T F nb k \<le> real_of_int (F + image_size img) / real_of_int T"
    unfolding overallProgress_eq by (simp_all add: divide_right_mono del: of_int_add)
qed

lemma overallProgress_last:
  assumes "0 < nb"
  shows "overallProgress img T F nb (nb - 1) = real_of_int (F + image_size img) / real_of_int T"
  using assms by (simp add: overallProgress_eq)

lemma sorted_image_progress:
  assumes "0 < T"
  shows "sorted (map (overallProgress img T F nb) [0..nb - 1])"
proof (cases "0 < nb")
  case True
  have "sorted_wrt (\<lambda>x y. overallProgress img T F nb x \<le> overallProgress img T F nb y) [0..nb - 1]"
    by (rule sorted_wrt_mono_rel [of _ "(\<le>)"])
       (simp_all add: overallProgress_mono [OF assms True])
  then show ?thesis by (simp add: sorted_map)
next
  case False
  then show ?thesis by simp
qed

lemma expected_progress_sorted:
  assumes "0 < T"
  shows "sorted (expected_progress fw T F) \<and>
         (\<forall>x \<in> set (expected_progress fw T F). real_of_int F / real_of_int T \<le> x)"
proof (induction fw arbitrary: F)
  case Nil
  show ?case by simp
next
  case (Cons img rest)
  let ?A = "map (overallProgress img T F (numBlocks_of img)) [0..numBlocks_of img - 1]"
  let ?B = "expected_progress rest T (F + image_size img)"
  have A: "real_of_int F / real_of_int T \<le> a \<and> a \<le> real_of_int (F + image_size img) / real_of_int T"
    if "a \<in> set ?A" for a
  proof -
    from that obtain k where "a = overallProgress img T F (numBlocks_of img) k"
      "0 \<le> k" "k < numBlocks_of img" by auto
    with overallProgress_bounds [OF assms, where k = k and nb = "numBlocks_of img"
        and F = F and img = img]
    show ?thesis by simp
  qed
  have B: "real_of_int (F + image_size img) / real_of_int T \<le> b" if "b \<in> set ?B" for b
    using Cons [of "F + image_size img"] that by blast
  have F: "real_of_int F / real_of_int T \<le> real_of_int (F + image_size img) / real_of_int T"
    using assms by (simp add: divide_right_mono)
  have "sorted (?A @ ?B)"
    unfolding sorted_append
    using sorted_image_progress [OF assms] Cons [of "F + image_size img"] A B
    by (meson order_trans)
  moreover have "\<forall>x \<in> set (?A @ ?B). real_of_int F / real_of_int T \<le> x"
    using A B F by (auto intro: order_trans)
  ultimately show ?case by simp
qed

lemma expected_progress_none:
  "sum_list (map image_size fw) = 0 \<Longrightarrow> expected_progress fw T F = []"
proof (induction fw arbitrary: F)
  case Nil
  show ?case by simp
next
  case (Cons img rest)
  from Cons.prems sum_sizes_nonneg [of rest] image_size_nonneg [of img]
  have "image_size img = 0" "sum_list (map image_size rest) = 0" by (simp, linarith)+
  with Cons.IH show ?case by (simp add: empty_image_no_blocks)
qed

lemma expected_progress_some:
  "expected_progress fw T F = [] \<Longrightarrow> sum_list (map image_size fw) = 0"
proof (induction fw arbitrary: F)
  case Nil
  show ?case by simp
next
  case (Cons img rest)
  then have "numBlocks_of img \<le> 0" "expected_progress rest T (F + image_size img) = []"
    by simp_all
  with Cons.IH show ?case by (simp add: no_blocks_empty_image)
qed

lemma expected_progress_last:
  "expected_progress fw T F \<noteq> [] \<Longrightarrow>
   last (expected_progress fw T F)
     = real_of_int (F + sum_list (map image_size fw)) / real_of_int T"
proof (induction fw arbitrary: F)
  case Nil
  then show ?case by simp
next
  case (Cons img rest)
  show ?case
  proof (cases "expected_progress rest T (F + image_size img) = []")
    case False
    with Cons.IH [of "F + image_size img"] show ?thesis by (simp add: add.assoc)
  next
    case True
    with Cons.prems have nb: "0 < numBlocks_of img" by (cases "0 < numBlocks_of img") simp_all
    then have "[0..numBlocks_of img - 1] = [0..numBlocks_of img - 1 - 1] @ [numBlocks_of img - 1]"
      by (simp add: upto_rec2)
    then have "last (map (overallProgress img T F (numBlocks_of img)) [0..numBlocks_of img - 1])
        = overallProgress img T F (numBlocks_of img) (numBlocks_of img - 1)"
      by (metis last_map last_snoc snoc_eq_iff_butlast)
    with True nb expected_progress_some [OF True] show ?thesis
      by (simp add: overallProgress_last)
  qed
qed

lemma expected_progress_total:
  "sorted (expected_progress fw (totalSize fw) 0)"
  "expected_progress fw (totalSize fw) 0 \<noteq> [] \<Longrightarrow> last (expected_progress fw (totalSize fw) 0) = 1"
  "\<exists>img \<in> set fw. image_data img \<noteq> [] \<Longrightarrow> expected_progress fw (totalSize fw) 0 \<noteq> []"
proof -
  show "sorted (expected_progress fw (totalSize fw) 0)"
  proof (cases "0 < totalSize fw")
    case True
    then show ?thesis using expected_progress_sorted by blast
  next
    case False
    with sum_sizes_nonneg [of fw] have "sum_list (map image_size fw) = 0"
      by (simp add: totalSize_sum)
    then show ?thesis by (simp add: expected_progress_none)
  qed
  show "last (expected_progress fw (totalSize fw) 0) = 1"
    if ne: "expected_progress fw (totalSize fw) 0 \<noteq> []"
  proof -
    from ne expected_progress_none [of fw "totalSize fw" 0] have "totalSize fw \<noteq> 0"
      by (auto simp add: totalSize_sum)
    with expected_progress_last [OF ne] show ?thesis by (simp add: totalSize_sum)
  qed
  show "expected_progress fw (totalSize fw) 0 \<noteq> []" if "\<exists>img \<in> set fw. image_data img \<noteq> []"
  proof
    assume "expected_progress fw (totalSize fw) 0 = []"
    then have z: "sum_list (map image_size fw) = 0" by (rule expected_progress_some)
    from that obtain img where "img \<in> set fw" "0 < image_size img"
      by (auto simp add: image_size_def)
    then have "0 < sum_list (map image_size fw)"
    proof (induction fw)
      case Nil
      then show ?case by simp
    next
      case (Cons a fw)
      show ?case
      proof (cases "img = a")
        case True
        with Cons.prems sum_sizes_nonneg [of fw] show ?thesis by simp
      next
        case False
        with Cons have "0 < sum_list (map image_size fw)" by simp
        then show ?thesis by (simp add: add_nonneg_pos)
      qed
    qed
    with z show False by simp
  qed
qed

subsection \<open>A run that the loader accepts\<close>

lemma accepted_run:
  "terminal_state (run two_image_firmware uart_port Baud115200 loader_accepts)
     = Some FlashingState_complete"
  by (simp add: scenario_simps two_image_firmware_def loader_accepts_def terminal_state_def
        cong: bindM_weak_cong try_catch_weak_cong)

lemma accepted_run_progress:
  "flashing_progress (trace (run two_image_firmware uart_port Baud115200 loader_accepts))
     = [375 / 754, 375 / 377, 1]"
  by (simp add: scenario_simps two_image_firmware_def loader_accepts_def overallProgress_def
        state_defs
        cong: bindM_weak_cong try_catch_weak_cong)

subsection \<open>The blocks sent\<close>

text \<open>What the frame of a block carries.\<close>

lemma le32_bytes:
  "(ucast (ucast (w AND 0xFF) :: byte) :: 32 word)
     OR push_bit 8 (ucast (ucast (drop_bit 8 w AND 0xFF) :: byte))
     OR push_bit 16 (ucast (ucast (drop_bit 16 w AND 0xFF) :: byte))
     OR push_bit 24 (ucast (ucast (drop_bit 24 w AND 0xFF) :: byte)) = (w :: 32 word)"
proof (rule bit_word_eqI)
  fix n assume "n < LENGTH(32)"
  then have n: "n < 32" by simp
  have m: "(0xFF :: 32 word) = mask 8"
    by (simp add: mask_eq_exp_minus_1)
  consider "n < 8" | "8 \<le> n" "n < 16" | "16 \<le> n" "n < 24" | "24 \<le> n" "n < 32"
    using n by linarith
  then show "bit ((ucast (ucast (w AND 0xFF) :: byte) :: 32 word)
     OR push_bit 8 (ucast (ucast (drop_bit 8 w AND 0xFF) :: byte))
     OR push_bit 16 (ucast (ucast (drop_bit 16 w AND 0xFF) :: byte))
     OR push_bit 24 (ucast (ucast (drop_bit 24 w AND 0xFF) :: byte))) n = bit w n"
    unfolding m by cases (auto simp add: bit_simps)
qed

lemma le_value_appendLE32: "le_value (appendLE32 [] w) = uint w"
proof -
  have "le_value (appendLE32 [] w)
      = uint (ucast (w AND 0xFF) :: byte) + 256 * uint (ucast (drop_bit 8 w AND 0xFF) :: byte)
        + 65536 * uint (ucast (drop_bit 16 w AND 0xFF) :: byte)
        + 16777216 * uint (ucast (drop_bit 24 w AND 0xFF) :: byte)"
    by (simp add: appendLE32_def)
  also have "\<dots> = uint ((ucast (ucast (w AND 0xFF) :: byte) :: 32 word)
     OR push_bit 8 (ucast (ucast (drop_bit 8 w AND 0xFF) :: byte))
     OR push_bit 16 (ucast (ucast (drop_bit 16 w AND 0xFF) :: byte))
     OR push_bit 24 (ucast (ucast (drop_bit 24 w AND 0xFF) :: byte)))"
    by (simp only: le32_uint)
  finally show ?thesis by (simp only: le32_bytes)
qed

lemma flash_data_layout:
  "take 4 (drop 8 (buildFlashDataCommand b s)) = appendLE32 [] (word_of_int (int (length b)))"
  "take 4 (drop 12 (buildFlashDataCommand b s)) = appendLE32 [] s"
  "drop 24 (buildFlashDataCommand b s) = b"
  by (simp_all add: buildFlashDataCommand_def buildPacket_def appendLE32_def appendLE16_def)

lemma sent_block_frame:
  assumes "length b < 2 ^ 32"
  shows "sent_block (encode (buildFlashDataCommand b s)) = (int (length b), uint s, b)"
proof -
  from assms have "uint (word_of_int (int (length b)) :: 32 word) = int (length b)"
    by (simp add: uint_word_of_int del: of_int_of_nat_eq)
  then show ?thesis
    by (simp add: sent_block_def decode_encode flash_data_layout le_value_appendLE32)
qed

lemma sent_block_of_image:
  assumes "image_size img + 1023 < 2 ^ 31"
  shows "map sent_block (image_frames img)
           = map (\<lambda>k. (1024, k, blockData img k)) [0..numBlocks_of img - 1]"
proof -
  have "sent_block (block_frame img k) = (1024, k, blockData img k)"
    if "k \<in> set [0..numBlocks_of img - 1]" for k
  proof -
    from that have k: "0 \<le> k" "k < numBlocks_of img" by simp_all
    then have "length (blockData img k) = 1024" by (rule length_blockData)
    moreover from assms k have "uint (word_of_int k :: 32 word) = k" by (rule seq_in_range)
    ultimately show ?thesis by (simp add: block_frame_def sent_block_frame)
  qed
  then show ?thesis by (simp add: image_frames_def)
qed

lemma sent_block_of_bundle:
  assumes "\<forall>img \<in> set fw. image_size img + 1023 < 2 ^ 31"
  shows "map sent_block (concat (map image_frames fw))
           = concat (map (\<lambda>img. map (\<lambda>k. (1024, k, blockData img k))
                                      [0..numBlocks_of img - 1]) fw)"
  using assms by (induction fw) (simp_all add: sent_block_of_image)

text \<open>
  C5. For a bundle whose image sizes are in the range of the \<open>int\<close> arithmetic of the loop:
  the \<open>FLASH_DATA\<close> frames that a run writes are, in order, a prefix of the frames of the
  blocks \<open>0, 1, \<dots>, numBlocks - 1\<close> of the images one after the other, and all of them
  when the run ends in \<open>Complete\<close>; and what these frames carry on the wire is, frame by
  frame, the data length 1024, the sequence number \<open>k\<close> and the bytes of block \<open>k\<close>. For
  each image \<open>numBlocks\<close> is \<open>\<lceil>size / 1024\<rceil>\<close>, every block has 1024 bytes, and the
  blocks one after the other are the payload followed by bytes \<open>0xFF\<close> only.
\<close>

theorem flash_data_blocks:
  "((\<forall>img \<in> set fw. image_size img + 1023 < 2 ^ 31) \<longrightarrow>
      prefix (writes_of FlashData (trace (run fw port baudRate env)))
        (concat (map (\<lambda>img. map (\<lambda>k. encode (buildFlashDataCommand (blockData img k)
                                                 (word_of_int k)))
                                 [0..numBlocks_of img - 1]) fw)) \<and>
      prefix (map sent_block (writes_of FlashData (trace (run fw port baudRate env))))
        (concat (map (\<lambda>img. map (\<lambda>k. (1024, k, blockData img k))
                                 [0..numBlocks_of img - 1]) fw)) \<and>
      (terminal_state (run fw port baudRate env) = Some FlashingState_complete \<longrightarrow>
         writes_of FlashData (trace (run fw port baudRate env))
           = concat (map (\<lambda>img. map (\<lambda>k. encode (buildFlashDataCommand (blockData img k)
                                                      (word_of_int k)))
                                      [0..numBlocks_of img - 1]) fw) \<and>
         map sent_block (writes_of FlashData (trace (run fw port baudRate env)))
           = concat (map (\<lambda>img. map (\<lambda>k. (1024, k, blockData img k))
                                      [0..numBlocks_of img - 1]) fw))) \<and>
   (\<forall>img \<in> set fw. image_size img + 1023 < 2 ^ 31 \<longrightarrow>
      numBlocks_of img = \<lceil>real_of_int (image_size img) / 1024\<rceil> \<and>
      (\<forall>k \<in> {0..<numBlocks_of img}.
         length (blockData img k) = 1024 \<and> uint (word_of_int k :: 32 word) = k) \<and>
      concat (map (blockData img) [0..numBlocks_of img - 1])
        = image_data img @ replicate (nat (numBlocks_of img * 1024 - image_size img)) 0xFF)"
proof -
  let ?W = "writes_of FlashData (trace (run fw port baudRate env))"
  have f: "concat (map image_frames fw)
      = concat (map (\<lambda>img. map (\<lambda>k. encode (buildFlashDataCommand (blockData img k)
                                                  (word_of_int k)))
                                  [0..numBlocks_of img - 1]) fw)"
    by (simp add: image_frames_def block_frame_def cong: map_cong)
  have p: "prefix ?W (concat (map image_frames fw))"
    by (rule run_frames_prefix)
  then have "prefix (map sent_block ?W) (map sent_block (concat (map image_frames fw)))"
    by (rule map_mono_prefix)
  then have w: "prefix (map sent_block ?W)
                  (concat (map (\<lambda>img. map (\<lambda>k. (1024, k, blockData img k))
                                          [0..numBlocks_of img - 1]) fw))"
    if "\<forall>img \<in> set fw. image_size img + 1023 < 2 ^ 31"
    using sent_block_of_bundle [OF that] by simp
  have c: "?W = concat (map image_frames fw)"
    if "terminal_state (run fw port baudRate env) = Some FlashingState_complete"
    using that by (rule run_frames_complete)
  have cw: "map sent_block ?W
              = concat (map (\<lambda>img. map (\<lambda>k. (1024, k, blockData img k))
                                      [0..numBlocks_of img - 1]) fw)"
    if "terminal_state (run fw port baudRate env) = Some FlashingState_complete"
      and "\<forall>img \<in> set fw. image_size img + 1023 < 2 ^ 31"
    using c [OF that(1)] sent_block_of_bundle [OF that(2)] by simp
  have i: "\<forall>k \<in> {0..<numBlocks_of img}.
          length (blockData img k) = 1024 \<and> uint (word_of_int k :: 32 word) = k"
    if "image_size img + 1023 < 2 ^ 31" for img
    using that by (simp add: length_blockData seq_in_range)
  from p c w cw i numBlocks_of_ceiling concat_blockData show ?thesis
    unfolding f by blast
qed

theorem flash_data_blocks_witness:
  "terminal_state (run two_image_firmware uart_port Baud115200 loader_accepts)
     = Some FlashingState_complete \<and>
   writes_of FlashData (trace (run two_image_firmware uart_port Baud115200 loader_accepts))
     = [encode (buildFlashDataCommand (replicate 1024 0xE9) 0),
        encode (buildFlashDataCommand (replicate 476 0xE9 @ replicate 548 0xFF) 1),
        encode (buildFlashDataCommand
                  ([0xE9, 0x01, 0x02, 0x03, 0x04, 0x05, 0x06, 0x07] @ replicate 1016 0xFF) 0)] \<and>
   map sent_block
     (writes_of FlashData (trace (run two_image_firmware uart_port Baud115200 loader_accepts)))
     = [(1024, 0, replicate 1024 0xE9),
        (1024, 1, replicate 476 0xE9 @ replicate 548 0xFF),
        (1024, 0, [0xE9, 0x01, 0x02, 0x03, 0x04, 0x05, 0x06, 0x07] @ replicate 1016 0xFF)] \<and>
   numBlocks_of (hd two_image_firmware) = 2 \<and>
   concat (map (blockData (hd two_image_firmware)) [0, 1])
     = replicate 1500 0xE9 @ replicate 548 0xFF"
proof -
  let ?run = "run two_image_firmware uart_port Baud115200 loader_accepts"
  have u: "[0..1] = [0, 1]" "[0..0] = [0]" by (simp_all add: upto.simps)
  have b: "\<forall>img \<in> set two_image_firmware. image_size img + 1023 < 2 ^ 31"
    by (simp add: two_image_firmware_def image_size_def)
  have h: "hd two_image_firmware \<in> set two_image_firmware"
    by (simp add: two_image_firmware_def)
  have n: "numBlocks_of (hd two_image_firmware) = 2"
    by (simp add: two_image_firmware_def numBlocks_of_def image_size_def FLASH_BLOCK_SIZE_def)
  have f: "concat (map (\<lambda>img. map (\<lambda>k. encode (buildFlashDataCommand (blockData img k)
                                                   (word_of_int k)))
                                   [0..numBlocks_of img - 1]) two_image_firmware)
      = [encode (buildFlashDataCommand (replicate 1024 0xE9) 0),
         encode (buildFlashDataCommand (replicate 476 0xE9 @ replicate 548 0xFF) 1),
         encode (buildFlashDataCommand
                   ([0xE9, 0x01, 0x02, 0x03, 0x04, 0x05, 0x06, 0x07] @ replicate 1016 0xFF) 0)]"
    by (simp add: two_image_firmware_def numBlocks_of_def image_size_def FLASH_BLOCK_SIZE_def
          blockData_def mid_def Let_def u)
  have g: "concat (map (\<lambda>img. map (\<lambda>k. (1024, k, blockData img k))
                                   [0..numBlocks_of img - 1]) two_image_firmware)
      = [(1024, 0, replicate 1024 0xE9),
         (1024, 1, replicate 476 0xE9 @ replicate 548 0xFF),
         (1024, 0, [0xE9, 0x01, 0x02, 0x03, 0x04, 0x05, 0x06, 0x07] @ replicate 1016 0xFF)]"
    by (simp add: two_image_firmware_def numBlocks_of_def image_size_def FLASH_BLOCK_SIZE_def
          blockData_def mid_def Let_def u)
  have r: "nat (numBlocks_of (hd two_image_firmware) * 1024 - image_size (hd two_image_firmware))
             = 548"
    "image_data (hd two_image_firmware) = replicate 1500 0xE9"
    by (simp_all add: n) (simp_all add: two_image_firmware_def image_size_def)
  from flash_data_blocks [of two_image_firmware uart_port Baud115200 loader_accepts]
    b h accepted_run
  have "writes_of FlashData (trace ?run)
          = concat (map (\<lambda>img. map (\<lambda>k. encode (buildFlashDataCommand (blockData img k)
                                                      (word_of_int k)))
                                      [0..numBlocks_of img - 1]) two_image_firmware)"
    and "map sent_block (writes_of FlashData (trace ?run))
          = concat (map (\<lambda>img. map (\<lambda>k. (1024, k, blockData img k))
                                      [0..numBlocks_of img - 1]) two_image_firmware)"
    and "concat (map (blockData (hd two_image_firmware))
                   [0..numBlocks_of (hd two_image_firmware) - 1])
          = image_data (hd two_image_firmware)
            @ replicate (nat (numBlocks_of (hd two_image_firmware) * 1024
                              - image_size (hd two_image_firmware))) 0xFF"
    by blast+
  with accepted_run n show ?thesis
    unfolding f g r by (simp add: u)
qed

subsection \<open>The progress reported\<close>

text \<open>
  C7. The progress values of the \<open>Flashing\<close> states of a run, in the order of emission,
  never decrease, across the blocks of an image and from one image to the next; when
  the run ends in \<open>Complete\<close> and some image of the bundle is not empty, there is such a
  value and the last one is 1. The values are real numbers here, as the claim takes them.
\<close>

theorem progress_non_decreasing:
  "sorted (flashing_progress (trace (run fw port baudRate env))) \<and>
   (terminal_state (run fw port baudRate env) = Some FlashingState_complete \<and>
    (\<exists>img \<in> set fw. image_data img \<noteq> []) \<longrightarrow>
      flashing_progress (trace (run fw port baudRate env)) \<noteq> [] \<and>
      last (flashing_progress (trace (run fw port baudRate env))) = 1)"
proof -
  from run_progress_prefix [of fw port baudRate env] obtain zs where
    "expected_progress fw (totalSize fw) 0
       = flashing_progress (trace (run fw port baudRate env)) @ zs"
    by (auto simp add: prefix_def)
  with expected_progress_total(1) [of fw]
  have "sorted (flashing_progress (trace (run fw port baudRate env)))"
    by (simp add: sorted_append)
  then show ?thesis
    using run_progress_complete [of fw port baudRate env] expected_progress_total(2,3) [of fw]
    by auto
qed

theorem progress_non_decreasing_witness:
  "terminal_state (run two_image_firmware uart_port Baud115200 loader_accepts)
     = Some FlashingState_complete \<and>
   flashing_progress (trace (run two_image_firmware uart_port Baud115200 loader_accepts))
     = [375 / 754, 375 / 377, 1] \<and>
   sorted (flashing_progress (trace (run two_image_firmware uart_port Baud115200 loader_accepts))) \<and>
   last (flashing_progress (trace (run two_image_firmware uart_port Baud115200 loader_accepts))) = 1"
proof -
  have "\<exists>img \<in> set two_image_firmware. image_data img \<noteq> []"
    by (simp add: two_image_firmware_def)
  with progress_non_decreasing [of two_image_firmware uart_port Baud115200 loader_accepts]
    accepted_run accepted_run_progress
  show ?thesis by blast
qed

section \<open>A block that the loader rejects\<close>

lemma arg_int_digits: "arg_int 3 = ''3''" "arg_int 1 = ''1''"
  by code_simp+

lemma emitted_states_member: "st \<in> set (emitted_states es) \<longleftrightarrow> StateChanged st \<in> set es"
  by (induction es rule: emitted_states.induct) auto

lemma catch_state_kind: "catch_state e c \<noteq> FlashingState_error FlashDataFailed msg d"
  by (simp add: catch_state_def state_defs)

lemma working_not_error:
  "list_all working_event es \<Longrightarrow> StateChanged (FlashingState_error t msg d) \<notin> set es"
  by (auto simp add: list_all_iff working_event_def state_defs)

lemma finish_not_error:
  "list_all (\<lambda>e. finish_event e \<and> P e) es \<Longrightarrow>
   StateChanged (FlashingState_error t msg d) \<notin> set es"
  by (auto simp add: list_all_iff state_defs)

lemma catch_tail_not_flash_data_failed:
  "StateChanged (FlashingState_error FlashDataFailed msg d) \<notin> set (catch_tail e s)"
  using catch_state_kind [of e "flag_now s" msg d] by (auto simp add: catch_tail_def)

lemma never_flash_data_failed:
  "FlashingState_error FlashDataFailed msg d
     \<notin> set (emitted_states (trace (run fw port baudRate env)))"
proof (cases rule: run_shape [of fw port baudRate env])
  case (aborted es e s)
  then show ?thesis
    by (auto simp add: emitted_states_member
          dest: working_not_error catch_tail_not_flash_data_failed [THEN notE])
next
  case (finishing es a b t)
  then show ?thesis
    by (auto simp add: emitted_states_member
          dest: working_not_error finish_not_error catch_tail_not_flash_data_failed [THEN notE])
qed

text \<open>
  C1. The claim: when the response to \<open>FLASH_DATA\<close> for block \<open>n\<close> reports a status other
  than 0, the run ends in the state \<open>Error\<close> with kind \<open>FlashDataFailed\<close> and
  \<open>errorData = n\<close>. The code: \<open>flashData\<close> throws a \<open>runtime_error\<close> with the message
  "Flash data failed at block n: status=...", and the catch block of \<open>runFlashing\<close> maps
  every exception whose message has neither "Cancelled" nor "sync" in it to the kind
  \<open>ConnectionFailed\<close> with \<open>errorData = 0\<close>. For the image of four blocks whose block 3
  the loader rejects with status 1 the last state is that one; and no run at all emits an
  \<open>Error\<close> of kind \<open>FlashDataFailed\<close>.
\<close>

theorem rejected_block_ends_in_connection_failed:
  "terminal_state (run four_block_firmware uart_port Baud115200 loader_rejects_block_3) =
     Some (FlashingState_error ConnectionFailed ''Flash data failed at block 3: status=1'' 0) \<and>
   FlashingState_error FlashDataFailed msg d
     \<notin> set (emitted_states (trace (run fw port baudRate env)))"
proof -
  have "terminal_state (run four_block_firmware uart_port Baud115200 loader_rejects_block_3) =
     Some (FlashingState_error ConnectionFailed ''Flash data failed at block 3: status=1'' 0)"
    by (simp add: scenario_simps four_block_firmware_def loader_rejects_block_3_def
          failed_response_def terminal_state_def arg_int_digits
          cong: bindM_weak_cong try_catch_weak_cong)
  with never_flash_data_failed show ?thesis by blast
qed

end
